theory Spec2Isabelle
  imports Complex_Main
begin

section \<open>Time-of-flight by reordering: a model of the transport core\<close>

text \<open>
  The development follows three C++ units of the repository:
  \<^item> \<^verbatim>\<open>reordersequence.cpp\<close>: \<^verbatim>\<open>make_upwind_graph\<close>,
    \<^verbatim>\<open>compute_reorder_sequence_graph\<close>, \<^verbatim>\<open>compute_sequence\<close>;
  \<^item> \<^verbatim>\<open>TransportModelTracerTof.cpp\<close>: \<^verbatim>\<open>solveTof\<close>,
    \<^verbatim>\<open>solveSingleCell\<close>, \<^verbatim>\<open>solveMultiCell\<close>, \<^verbatim>\<open>multidimUpwindTof\<close>;
  \<^item> the strongly-connected-component routine \<^verbatim>\<open>tarjan\<close> and the component loop
    \<^verbatim>\<open>reorderAndTransport\<close>, which the two units call but whose text is not among
    the source files; they are modelled from the specification and marked as such.

  Conventions. A C \<^verbatim>\<open>int\<close> that is an index or a count is a \<^typ>\<open>nat\<close>; the entries
  of \<^verbatim>\<open>face_cells\<close> are \<^typ>\<open>int\<close> because \<open>-1\<close> marks the exterior. A C array is a
  list, read with \<open>!\<close> and written with list update. A \<^verbatim>\<open>double\<close> is a
  \<^typ>\<open>real\<close>. In the first part of the definitions arithmetic is exact: there is no
  rounding, no NaN and no infinity, so a statement about a quotient is about the
  program only where the divisor is not zero, and a statement that depends on the exact
  value of a sum is about the program only where the sum is representable. The second
  part repeats the arithmetic of the code with the rounding of every operation made
  explicit; it is used where rounding decides a property.
  The build switch \<^verbatim>\<open>NDEBUG\<close> is the Boolean \<open>ndebug\<close>: when it is set, the sanity
  check of \<^verbatim>\<open>solveTof\<close> and every assertion are compiled out. A thrown exception
  or a failed assertion is a value \<open>Inl (e, s)\<close>, where \<open>s\<close> is the solver object at
  that moment. The line that \<^verbatim>\<open>solveMultiCell\<close> prints to the standard output is not
  modelled.
\<close>

subsection \<open>The grid\<close>

record UnstructuredGrid =
  dimensions :: int
  number_of_cells :: nat
  number_of_faces :: nat
  face_nodes :: "nat list"
  face_nodepos :: "nat list"
  face_cells :: "int list"
  cell_faces :: "nat list"
  cell_facepos :: "nat list"

subsection \<open>Loops that may stop with an error\<close>

text \<open>A \<^verbatim>\<open>for\<close> loop whose body may throw: the first error ends the loop.\<close>

fun foldM :: "('a \<Rightarrow> 's \<Rightarrow> 'e + 's) \<Rightarrow> 'a list \<Rightarrow> 's \<Rightarrow> 'e + 's" where
  "foldM f [] s = Inr s"
| "foldM f (x # xs) s = (case f x s of Inl e \<Rightarrow> Inl e | Inr s' \<Rightarrow> foldM f xs s')"

subsection \<open>The upwind graph (\<^verbatim>\<open>make_upwind_graph\<close>)\<close>

text \<open>\<^verbatim>\<open>theflux = positive_sign ? flux[f] : -flux[f]\<close> with
  \<^verbatim>\<open>positive_sign = (i == face2cell[2*f])\<close>: the flux of face \<open>f\<close> out of cell \<open>i\<close>.\<close>

definition theflux :: "int list \<Rightarrow> real list \<Rightarrow> nat \<Rightarrow> nat \<Rightarrow> real" where
  "theflux face2cell flux i f =
     (if int i = face2cell ! (2 * f) then flux ! f else - (flux ! f))"

definition boundaryface :: "int list \<Rightarrow> nat \<Rightarrow> bool" where
  "boundaryface face2cell f \<longleftrightarrow>
     face2cell ! (2 * f + 0) = - 1 \<or> face2cell ! (2 * f + 1) = - 1"

text \<open>Body of the first loop nest: \<^verbatim>\<open>if (theflux > 0) work[f] = i\<close>.\<close>

definition store_upwind ::
  "nat list \<Rightarrow> int list \<Rightarrow> real list \<Rightarrow> nat \<Rightarrow> nat \<Rightarrow> nat list \<Rightarrow> nat list" where
  "store_upwind cellfaces face2cell flux i j work =
     (let f = cellfaces ! j in
      if theflux face2cell flux i f > 0 then work[f := i] else work)"

definition upwind_cells ::
  "nat \<Rightarrow> nat list \<Rightarrow> nat list \<Rightarrow> int list \<Rightarrow> real list \<Rightarrow> nat list \<Rightarrow> nat list" where
  "upwind_cells nc cellfaces faceptr face2cell flux work =
     fold (\<lambda>i. fold (store_upwind cellfaces face2cell flux i)
                  [faceptr ! i ..< faceptr ! (i + 1)])
          [0 ..< nc] work"

text \<open>Body of the second loop nest: a boundary face is skipped (\<^verbatim>\<open>continue\<close>),
  an interior face with inflow appends its upwind cell: \<^verbatim>\<open>ja[p++] = work[f]\<close>.\<close>

definition fill_entry ::
  "nat list \<Rightarrow> int list \<Rightarrow> real list \<Rightarrow> nat list \<Rightarrow> nat \<Rightarrow> nat \<Rightarrow>
   nat \<times> nat list \<Rightarrow> nat \<times> nat list" where
  "fill_entry cellfaces face2cell flux work i j = (\<lambda>(p, ja).
     (let f = cellfaces ! j in
      if boundaryface face2cell f then (p, ja)
      else if theflux face2cell flux i f < 0 then (p + 1, ja[p := work ! f])
      else (p, ja)))"

definition fill_row ::
  "nat list \<Rightarrow> nat list \<Rightarrow> int list \<Rightarrow> real list \<Rightarrow> nat list \<Rightarrow> nat \<Rightarrow>
   nat \<times> nat list \<times> nat list \<Rightarrow> nat \<times> nat list \<times> nat list" where
  "fill_row cellfaces faceptr face2cell flux work i = (\<lambda>(p, ia, ja).
     (let (p', ja') = fold (fill_entry cellfaces face2cell flux work i)
                        [faceptr ! i ..< faceptr ! (i + 1)] (p, ja)
      in (p', ia[i + 1 := p'], ja')))"

text \<open>The function returns the three arrays it writes: \<open>ia\<close>, \<open>ja\<close> and \<open>work\<close>.\<close>

definition make_upwind_graph ::
  "nat \<Rightarrow> nat list \<Rightarrow> nat list \<Rightarrow> int list \<Rightarrow> real list \<Rightarrow>
   nat list \<Rightarrow> nat list \<Rightarrow> nat list \<Rightarrow> nat list \<times> nat list \<times> nat list" where
  "make_upwind_graph nc cellfaces faceptr face2cell flux ia ja work =
     (let work' = upwind_cells nc cellfaces faceptr face2cell flux work;
          (p, ia', ja') = fold (fill_row cellfaces faceptr face2cell flux work')
                            [0 ..< nc] (0, ia[0 := 0], ja)
      in (ia', ja', work'))"

text \<open>Row \<open>i\<close> of a compressed adjacency \<open>(ia, ja)\<close>.\<close>

definition csr_row :: "nat list \<Rightarrow> nat list \<Rightarrow> nat \<Rightarrow> nat list" where
  "csr_row ia ja i = map (\<lambda>k. ja ! k) [ia ! i ..< ia ! (i + 1)]"

subsection \<open>Failures\<close>

text \<open>The ways in which a call may fail: the exception of \<^verbatim>\<open>solveTof\<close> with the
  cumulative source it reports; the dereference of the end iterator that
  \<^verbatim>\<open>std::max_element\<close> returns for an empty range; a failed \<^verbatim>\<open>assert\<close> or
  \<^verbatim>\<open>ASSERT\<close>; and a decomposition into components that ends without a result (the
  depth bound of the model of \<^verbatim>\<open>tarjan\<close> below was too small, which \<open>tarjan_ok\<close>
  excludes for every graph whose rows name vertices of the graph).\<close>

datatype error =
    Sources_do_not_sum_to_zero real
  | Invalid_dereference
  | Assertion_failed
  | Decomposition_incomplete

subsection \<open>Strongly connected components (\<^verbatim>\<open>tarjan\<close>)\<close>

text \<open>Modelled from the spec: a vertex is undiscovered, on the stack of the traversal,
  or in a finalized component.\<close>

datatype vertex_status = REMAINING | ACTIVE | DONE

text \<open>Modelled from the spec: the routine \<^verbatim>\<open>tarjan\<close> (declared in \<^verbatim>\<open>tarjan.h\<close>, called by
  \<^verbatim>\<open>compute_reorder_sequence_graph\<close>) is not among the source files. The
  specification describes it as a single depth-first traversal that maintains a stack
  of discovery indices and collapses low-link values, finalizes a component exactly
  when the low-link of its root equals the root's own discovery index, and emits the
  finalized components one after the other. The state below holds the discovery
  counter, the discovery index and the low-link of every vertex, the status of every
  vertex, the stack, the emitted order of vertices and the component boundaries
  (offsets into the emitted order).
\<close>

record tarjan_state =
  clock :: nat
  discovery :: "nat \<Rightarrow> nat"
  lowlink :: "nat \<Rightarrow> nat"
  vstatus :: "nat \<Rightarrow> vertex_status"
  vstack :: "nat list"
  emitted :: "nat list"
  boundaries :: "nat list"

text \<open>Modelled from the spec: a vertex is discovered: it gets the next discovery index,
  its low-link starts at that index, and it is pushed.\<close>

definition discover :: "nat \<Rightarrow> tarjan_state \<Rightarrow> tarjan_state" where
  "discover v s =
     s\<lparr>discovery := (discovery s)(v := clock s),
       lowlink := (lowlink s)(v := clock s),
       vstatus := (vstatus s)(v := ACTIVE),
       vstack := v # vstack s,
       clock := clock s + 1\<rparr>"

text \<open>Modelled from the spec: the stack is popped down to and including the root \<open>v\<close>;
  the second argument collects the popped vertices in the order they leave the stack.\<close>

fun pop_component :: "nat \<Rightarrow> nat list \<Rightarrow> nat list \<Rightarrow> nat list \<times> nat list" where
  "pop_component v acc [] = (acc, [])"
| "pop_component v acc (x # stk) =
     (if x = v then (acc @ [x], stk) else pop_component v (acc @ [x]) stk)"

text \<open>Modelled from the spec: a component is finalized exactly when the low-link of its
  root equals the root's discovery index; its vertices are appended to the emitted
  order and a new boundary is recorded.\<close>

definition finish :: "nat \<Rightarrow> tarjan_state \<Rightarrow> tarjan_state" where
  "finish v s =
     (if lowlink s v = discovery s v then
        (let (c, stk) = pop_component v [] (vstack s) in
         s\<lparr>vstack := stk,
           vstatus := (\<lambda>x. if x \<in> set c then DONE else vstatus s x),
           emitted := emitted s @ c,
           boundaries := boundaries s @ [length (emitted s @ c)]\<rparr>)
      else s)"

text \<open>Modelled from the spec: the successors of \<open>v\<close> are examined in turn. An
  undiscovered successor is traversed by \<open>visit\<close> and its low-link is collapsed into
  that of \<open>v\<close>; a successor on the stack contributes its discovery index; a finalized
  one contributes nothing.\<close>

fun explore ::
  "(nat \<Rightarrow> tarjan_state \<Rightarrow> tarjan_state option) \<Rightarrow> nat \<Rightarrow> nat list \<Rightarrow>
   tarjan_state \<Rightarrow> tarjan_state option" where
  "explore visit v [] s = Some s"
| "explore visit v (w # ws) s =
     (case vstatus s w of
        REMAINING \<Rightarrow>
          (case visit w s of
             None \<Rightarrow> None
           | Some s' \<Rightarrow>
               explore visit v ws
                 (s'\<lparr>lowlink := (lowlink s')(v := min (lowlink s' v) (lowlink s' w))\<rparr>))
      | ACTIVE \<Rightarrow>
          explore visit v ws
            (s\<lparr>lowlink := (lowlink s)(v := min (lowlink s v) (discovery s w))\<rparr>)
      | DONE \<Rightarrow> explore visit v ws s)"

text \<open>Modelled from the spec: the depth-first traversal from \<open>v\<close>. The first argument
  bounds the depth of the recursion; \<open>None\<close> means that the bound was too small.\<close>

primrec dfs ::
  "nat \<Rightarrow> nat list \<Rightarrow> nat list \<Rightarrow> nat \<Rightarrow> tarjan_state \<Rightarrow> tarjan_state option" where
  "dfs 0 ia ja v s = None"
| "dfs (Suc n) ia ja v s =
     (case explore (dfs n ia ja) v (csr_row ia ja v) (discover v s) of
        None \<Rightarrow> None
      | Some s' \<Rightarrow> Some (finish v s'))"

text \<open>Modelled from the spec: the state before the traversal. No vertex is discovered,
  nothing is emitted, and the first component starts at offset 0.\<close>

definition tarjan_init :: tarjan_state where
  "tarjan_init =
     \<lparr>clock = 0, discovery = (\<lambda>_. 0), lowlink = (\<lambda>_. 0), vstatus = (\<lambda>_. REMAINING),
      vstack = [], emitted = [], boundaries = [0]\<rparr>"

text \<open>Modelled from the spec: a vertex that is still undiscovered when its turn comes
  seeds a traversal. A depth of \<open>nv\<close> is enough for a graph on \<open>nv\<close> vertices
  (\<open>tarjan_ok\<close> below).\<close>

definition tarjan_seed ::
  "nat \<Rightarrow> nat list \<Rightarrow> nat list \<Rightarrow> nat \<Rightarrow> tarjan_state option \<Rightarrow> tarjan_state option" where
  "tarjan_seed nv ia ja seed r =
     (case r of
        None \<Rightarrow> None
      | Some s \<Rightarrow> if vstatus s seed = REMAINING then dfs nv ia ja seed s else Some s)"

text \<open>Modelled from the spec: the vertices seed the traversals in increasing order. The
  result is the emitted order of the vertices (\<^verbatim>\<open>sequence\<close>), the component
  boundaries (\<^verbatim>\<open>components\<close>) and the number of components (\<^verbatim>\<open>ncomponents\<close>).\<close>

definition tarjan ::
  "nat \<Rightarrow> nat list \<Rightarrow> nat list \<Rightarrow> (nat list \<times> nat list \<times> nat) option" where
  "tarjan nv ia ja =
     (case fold (tarjan_seed nv ia ja) [0 ..< nv] (Some tarjan_init) of
        None \<Rightarrow> None
      | Some s \<Rightarrow> Some (emitted s, boundaries s, length (boundaries s) - 1))"

subsection \<open>The reorder sequence (\<^verbatim>\<open>compute_sequence\<close>)\<close>

text \<open>\<^verbatim>\<open>compute_reorder_sequence_graph\<close>: the graph, then the components, then the two
  assertions on the number of components. The result is the sequence, the component
  boundaries, the number of components and the graph arrays.\<close>

definition compute_reorder_sequence_graph ::
  "bool \<Rightarrow> nat \<Rightarrow> nat list \<Rightarrow> nat list \<Rightarrow> int list \<Rightarrow> real list \<Rightarrow>
   nat list \<Rightarrow> nat list \<Rightarrow> nat list \<Rightarrow>
   error + (nat list \<times> nat list \<times> nat \<times> nat list \<times> nat list)" where
  "compute_reorder_sequence_graph ndebug nc cellfaces facepos face2cell flux ia ja work =
     (let (ia', ja', work') =
            make_upwind_graph nc cellfaces facepos face2cell flux ia ja work
      in case tarjan nc ia' ja' of
           None \<Rightarrow> Inl Decomposition_incomplete
         | Some (sequence, components, ncomponents) \<Rightarrow>
             if \<not> ndebug \<and> \<not> 0 < ncomponents then Inl Assertion_failed
             else if \<not> ndebug \<and> \<not> ncomponents \<le> nc then Inl Assertion_failed
             else Inr (sequence, components, ncomponents, ia', ja'))"

text \<open>\<^verbatim>\<open>compute_sequence\<close> allocates the scratch arrays (a \<^verbatim>\<open>std::vector<int>\<close> is
  zero-initialized) and drops the graph.\<close>

definition compute_sequence ::
  "bool \<Rightarrow> UnstructuredGrid \<Rightarrow> real list \<Rightarrow> error + (nat list \<times> nat list \<times> nat)" where
  "compute_sequence ndebug g flux =
     (let nc = number_of_cells g;
          nf = number_of_faces g;
          sz = max nf (3 * nc);
          work = replicate sz 0;
          ia = replicate (nc + 1) 0;
          ja = replicate nf 0
      in case compute_reorder_sequence_graph ndebug nc (cell_faces g) (cell_facepos g)
                (face_cells g) flux ia ja work of
           Inl e \<Rightarrow> Inl e
         | Inr (sequence, components, ncomponents, _, _) \<Rightarrow>
             Inr (sequence, components, ncomponents))"

subsection \<open>The solver object (\<^verbatim>\<open>TransportModelTracerTof\<close>)\<close>

text \<open>The members of the class, without the trailing underscore of their C++ names.
  The member \<open>tof\<close> stands for the caller's output vector, which the class reaches
  through the pointer \<^verbatim>\<open>tof_\<close>. The scratch vector \<^verbatim>\<open>adj_faces_\<close> is cleared
  before each use and is a local value of \<open>multidimUpwindTof\<close> here.\<close>

record TransportModelTracerTof =
  grid :: UnstructuredGrid
  use_multidim_upwind :: bool
  darcyflux :: "real list"
  porevolume :: "real list"
  source :: "real list"
  tof :: "real list"
  face_tof :: "real list"

type_synonym 'a result = "(error \<times> TransportModelTracerTof) + 'a"

subsection \<open>Multidimensional upwind (\<^verbatim>\<open>multidimUpwindTof\<close>)\<close>

definition nodes_of_face :: "UnstructuredGrid \<Rightarrow> nat \<Rightarrow> nat list" where
  "nodes_of_face g f =
     map (\<lambda>k. face_nodes g ! k) [face_nodepos g ! f ..< face_nodepos g ! (f + 1)]"

definition faces_of_cell :: "UnstructuredGrid \<Rightarrow> nat \<Rightarrow> nat list" where
  "faces_of_cell g c =
     map (\<lambda>k. cell_faces g ! k) [cell_facepos g ! c ..< cell_facepos g ! (c + 1)]"

text \<open>\<^verbatim>\<open>num_common += std::count(face_nodes_beg, face_nodes_end, *f_iter)\<close> over the
  nodes of \<open>f\<close>.\<close>

definition num_common :: "UnstructuredGrid \<Rightarrow> nat \<Rightarrow> nat \<Rightarrow> nat" where
  "num_common g face f =
     fold (\<lambda>x n. n + count_list (nodes_of_face g face) x) (nodes_of_face g f) 0"

text \<open>One round of the loop that collects \<^verbatim>\<open>adj_faces_\<close>.\<close>

definition adj_step ::
  "bool \<Rightarrow> UnstructuredGrid \<Rightarrow> nat \<Rightarrow> nat \<Rightarrow> nat list \<Rightarrow> error + nat list" where
  "adj_step ndebug g face hf adj =
     (let f = cell_faces g ! hf in
      if f \<noteq> face then
        (if int (num_common g face f) = dimensions g - 1 then Inr (adj @ [f])
         else if \<not> ndebug \<and> num_common g face f \<noteq> 0 then Inl Assertion_failed
         else Inr adj)
      else Inr adj)"

definition adj_faces :: "bool \<Rightarrow> UnstructuredGrid \<Rightarrow> nat \<Rightarrow> nat \<Rightarrow> error + nat list" where
  "adj_faces ndebug g face upwind_cell =
     foldM (adj_step ndebug g face)
       [cell_facepos g ! upwind_cell ..< cell_facepos g ! (upwind_cell + 1)] []"

text \<open>The locals of the second loop: \<^verbatim>\<open>flux_face\<close>, \<^verbatim>\<open>influx_f\<close>, \<^verbatim>\<open>omega_star\<close>
  and \<^verbatim>\<open>omega\<close> (the variant marked SMU in the source).\<close>

definition flux_face :: "TransportModelTracerTof \<Rightarrow> nat \<Rightarrow> real" where
  "flux_face s face = \<bar>darcyflux s ! face\<bar>"

definition influx_f :: "TransportModelTracerTof \<Rightarrow> nat \<Rightarrow> nat \<Rightarrow> real" where
  "influx_f s upwind_cell f =
     (if face_cells (grid s) ! (2 * f) = int upwind_cell then - (darcyflux s ! f)
      else darcyflux s ! f)"

definition omega_star :: "TransportModelTracerTof \<Rightarrow> nat \<Rightarrow> nat \<Rightarrow> nat \<Rightarrow> real" where
  "omega_star s face upwind_cell f = influx_f s upwind_cell f / flux_face s face"

definition omega :: "TransportModelTracerTof \<Rightarrow> nat \<Rightarrow> nat \<Rightarrow> nat \<Rightarrow> real" where
  "omega s face upwind_cell f =
     (if omega_star s face upwind_cell f > 0
      then omega_star s face upwind_cell f / (1 + omega_star s face upwind_cell f)
      else 0)"

definition multidimUpwindTof ::
  "bool \<Rightarrow> TransportModelTracerTof \<Rightarrow> nat \<Rightarrow> nat \<Rightarrow> error + real" where
  "multidimUpwindTof ndebug s face upwind_cell =
     (let g = grid s;
          num_nodes = int (face_nodepos g ! (face + 1)) - int (face_nodepos g ! face)
      in if \<not> ndebug \<and> \<not> (num_nodes = 2 \<or> dimensions g \<noteq> 2) then Inl Assertion_failed
         else
           (case adj_faces ndebug g face upwind_cell of
              Inl e \<Rightarrow> Inl e
            | Inr adj \<Rightarrow>
                if \<not> ndebug \<and> int (length adj) \<noteq> num_nodes then Inl Assertion_failed
                else
                  Inr (fold (\<lambda>f acc. acc + ((1 - omega s face upwind_cell f) * (tof s ! upwind_cell)
                                             + omega s face upwind_cell f * (face_tof s ! f)))
                         adj 0
                       / real (length adj))))"

subsection \<open>The single-cell update (\<^verbatim>\<open>solveSingleCell\<close>)\<close>

text \<open>The flux of the face at position \<open>i\<close> of \<^verbatim>\<open>cell_faces\<close> out of \<open>cell\<close>, and the
  cell on its other side.\<close>

definition cell_flux :: "TransportModelTracerTof \<Rightarrow> nat \<Rightarrow> nat \<Rightarrow> real" where
  "cell_flux s cell f =
     (if int cell = face_cells (grid s) ! (2 * f) then darcyflux s ! f
      else - (darcyflux s ! f))"

definition other_cell :: "TransportModelTracerTof \<Rightarrow> nat \<Rightarrow> nat \<Rightarrow> int" where
  "other_cell s cell f =
     (if int cell = face_cells (grid s) ! (2 * f) then face_cells (grid s) ! (2 * f + 1)
      else face_cells (grid s) ! (2 * f))"

text \<open>One round of the loop over the faces of \<open>cell\<close>. The loop state is the solver
  object with the two accumulators \<^verbatim>\<open>upwind_term\<close> and \<^verbatim>\<open>downwind_flux\<close>.\<close>

definition face_step ::
  "bool \<Rightarrow> nat \<Rightarrow> nat \<Rightarrow> TransportModelTracerTof \<times> real \<times> real \<Rightarrow>
   (TransportModelTracerTof \<times> real \<times> real) result" where
  "face_step ndebug cell i = (\<lambda>(s, upwind_term, downwind_flux).
     (let f = cell_faces (grid s) ! i;
          flux = cell_flux s cell f;
          other = other_cell s cell f
      in if other \<noteq> - 1 then
           (if flux < 0 then
              (if use_multidim_upwind s then
                 (case multidimUpwindTof ndebug s f (nat other) of
                    Inl e \<Rightarrow> Inl (e, s)
                  | Inr ftof \<Rightarrow>
                      Inr (s\<lparr>face_tof := (face_tof s)[f := ftof]\<rparr>,
                           upwind_term + flux * ftof, downwind_flux))
               else Inr (s, upwind_term + flux * (tof s ! nat other), downwind_flux))
            else Inr (s, upwind_term, downwind_flux + flux))
         else Inr (s, upwind_term, downwind_flux)))"

definition solveSingleCell ::
  "bool \<Rightarrow> TransportModelTracerTof \<Rightarrow> nat \<Rightarrow> TransportModelTracerTof result" where
  "solveSingleCell ndebug s cell =
     (case foldM (face_step ndebug cell)
             [cell_facepos (grid s) ! cell ..< cell_facepos (grid s) ! (cell + 1)]
             (s, 0, max (- (source s ! cell)) 0) of
        Inl e \<Rightarrow> Inl e
      | Inr (s', upwind_term, downwind_flux) \<Rightarrow>
          Inr (s'\<lparr>tof := (tof s')[cell := (porevolume s' ! cell - upwind_term) / downwind_flux]\<rparr>))"

subsection \<open>The multi-cell update (\<^verbatim>\<open>solveMultiCell\<close>)\<close>

definition solveMultiCell ::
  "bool \<Rightarrow> TransportModelTracerTof \<Rightarrow> nat \<Rightarrow> nat list \<Rightarrow> TransportModelTracerTof result" where
  "solveMultiCell ndebug s num_cells cells =
     foldM (\<lambda>i s'. solveSingleCell ndebug s' (cells ! i)) [0 ..< num_cells] s"

subsection \<open>The component loop (\<^verbatim>\<open>reorderAndTransport\<close>)\<close>

text \<open>Modelled from the spec: one component of the sequence is solved. Section 4.3 of
  the specification: a component of size 1 invokes the single-cell update directly,
  any other component invokes the multi-cell resolution on its cells, which are the
  entries of the sequence from the component's boundary on.\<close>

definition solve_component ::
  "bool \<Rightarrow> nat list \<Rightarrow> nat list \<Rightarrow> nat \<Rightarrow> TransportModelTracerTof \<Rightarrow>
   TransportModelTracerTof result" where
  "solve_component ndebug sequence components c s =
     (let comp_size = components ! (c + 1) - components ! c in
      if comp_size = 1 then solveSingleCell ndebug s (sequence ! (components ! c))
      else solveMultiCell ndebug s comp_size (drop (components ! c) sequence))"

text \<open>Modelled from the spec: the method \<^verbatim>\<open>reorderAndTransport\<close> of the base class is not
  among the source files. Section 4.3 of the specification: build the upwind graph,
  decompose it into ordered components (both done by \<^verbatim>\<open>compute_sequence\<close>), then
  iterate over the components in the computed order.\<close>

definition reorderAndTransport ::
  "bool \<Rightarrow> TransportModelTracerTof \<Rightarrow> UnstructuredGrid \<Rightarrow> real list \<Rightarrow>
   TransportModelTracerTof result" where
  "reorderAndTransport ndebug s g flux =
     (case compute_sequence ndebug g flux of
        Inl e \<Rightarrow> Inl (e, s)
      | Inr (sequence, components, ncomponents) \<Rightarrow>
          foldM (solve_component ndebug sequence components) [0 ..< ncomponents] s)"

subsection \<open>The entry point (\<^verbatim>\<open>solveTof\<close>)\<close>

text \<open>\<^verbatim>\<open>std::max_element\<close> returns the end of an empty range, which must not be
  dereferenced.\<close>

definition max_element :: "real list \<Rightarrow> real option" where
  "max_element xs = (case xs of [] \<Rightarrow> None | x # ys \<Rightarrow> Some (fold max ys x))"

text \<open>The sanity check on the sources, compiled only without \<^verbatim>\<open>NDEBUG\<close>.\<close>

definition check_sources ::
  "bool \<Rightarrow> TransportModelTracerTof \<Rightarrow> real list \<Rightarrow> error option" where
  "check_sources ndebug s src =
     (if ndebug then None
      else
        (let cum_src = fold (\<lambda>x acc. acc + x) (take (number_of_cells (grid s)) src) 0 in
         case max_element (take (number_of_cells (grid s)) src) of
           None \<Rightarrow> Some Invalid_dereference
         | Some m \<Rightarrow>
             if \<bar>cum_src\<bar> > m * (1 / 100) then Some (Sources_do_not_sum_to_zero cum_src)
             else None))"

text \<open>The last argument is the caller's output vector as it is when the call starts.\<close>

definition solveTof ::
  "bool \<Rightarrow> TransportModelTracerTof \<Rightarrow> real list \<Rightarrow> real list \<Rightarrow> real list \<Rightarrow> real list \<Rightarrow>
   TransportModelTracerTof result" where
  "solveTof ndebug s0 flux pv src tof_in =
     (let s = s0\<lparr>darcyflux := flux, porevolume := pv, source := src, tof := tof_in\<rparr> in
      case check_sources ndebug s src of
        Some e \<Rightarrow> Inl (e, s)
      | None \<Rightarrow>
          (let s1 = s\<lparr>tof := replicate (number_of_cells (grid s)) 0\<rparr>;
               s2 = (if use_multidim_upwind s1
                     then s1\<lparr>face_tof := replicate (number_of_faces (grid s1)) 0\<rparr>
                     else s1)
           in reorderAndTransport ndebug s2 (grid s2) flux))"

subsection \<open>The balance of one cell, in the words of the specification\<close>

text \<open>The sink strength plus the sum of the outgoing interior face fluxes of \<open>cell\<close>.\<close>

definition downwind_flux_of :: "TransportModelTracerTof \<Rightarrow> nat \<Rightarrow> real" where
  "downwind_flux_of s cell =
     max 0 (- (source s ! cell))
     + (\<Sum>f \<leftarrow> filter (\<lambda>f. other_cell s cell f \<noteq> - 1 \<and> 0 < cell_flux s cell f)
                  (faces_of_cell (grid s) cell).
          cell_flux s cell f)"

text \<open>The sum, over the incoming interior faces of \<open>cell\<close>, of the face flux (relative to
  \<open>cell\<close>, so negative) times the time of flight stored for the neighbour.\<close>

definition upwind_term_of :: "TransportModelTracerTof \<Rightarrow> nat \<Rightarrow> real" where
  "upwind_term_of s cell =
     (\<Sum>f \<leftarrow> filter (\<lambda>f. other_cell s cell f \<noteq> - 1 \<and> cell_flux s cell f < 0)
                 (faces_of_cell (grid s) cell).
        cell_flux s cell f * (tof s ! nat (other_cell s cell f)))"

text \<open>The condition under which the loop body of \<open>solveSingleCell\<close> reaches its call of
  \<open>multidimUpwindTof\<close> for face \<open>f\<close>: the three enclosing tests.\<close>

definition invokes_multidim :: "TransportModelTracerTof \<Rightarrow> nat \<Rightarrow> nat \<Rightarrow> bool" where
  "invokes_multidim s cell f \<longleftrightarrow>
     other_cell s cell f \<noteq> - 1 \<and> cell_flux s cell f < 0 \<and> use_multidim_upwind s"

text \<open>The contribution of one face to the two accumulators of \<open>solveSingleCell\<close> when
  the plain upstream value is used.\<close>

definition up_part :: "TransportModelTracerTof \<Rightarrow> nat \<Rightarrow> nat \<Rightarrow> real" where
  "up_part s cell f =
     (if other_cell s cell f \<noteq> - 1 \<and> cell_flux s cell f < 0
      then cell_flux s cell f * (tof s ! nat (other_cell s cell f)) else 0)"

definition dn_part :: "TransportModelTracerTof \<Rightarrow> nat \<Rightarrow> nat \<Rightarrow> real" where
  "dn_part s cell f =
     (if other_cell s cell f \<noteq> - 1 \<and> 0 < cell_flux s cell f then cell_flux s cell f else 0)"

subsection \<open>The multidimensional upwind value, in the words of the specification\<close>

text \<open>The number of nodes that two faces share.\<close>

definition shared_nodes :: "UnstructuredGrid \<Rightarrow> nat \<Rightarrow> nat \<Rightarrow> nat" where
  "shared_nodes g f f' = card (set (nodes_of_face g f) \<inter> set (nodes_of_face g f'))"

text \<open>The faces of cell \<open>u\<close>, other than \<open>face\<close>, that share exactly \<open>dimensions - 1\<close>
  nodes with \<open>face\<close>.\<close>

definition adjacent_faces :: "UnstructuredGrid \<Rightarrow> nat \<Rightarrow> nat \<Rightarrow> nat list" where
  "adjacent_faces g face u =
     filter (\<lambda>f. f \<noteq> face \<and> int (shared_nodes g face f) = dimensions g - 1)
       (faces_of_cell g u)"

text \<open>The value that one adjacent face \<open>f\<close> contributes.\<close>

definition blend :: "TransportModelTracerTof \<Rightarrow> nat \<Rightarrow> nat \<Rightarrow> nat \<Rightarrow> real" where
  "blend s face u f =
     (1 - omega s face u f) * (tof s ! u) + omega s face u f * (face_tof s ! f)"

subsection \<open>The source balance, in the words of the specification\<close>




text \<open>The solver object when the solve begins: the arguments are recorded, the output
  vector is resized and zeroed, and so is the face auxiliary array when
  multidimensional upwinding is on.\<close>

definition start_of_solve ::
  "TransportModelTracerTof \<Rightarrow> real list \<Rightarrow> real list \<Rightarrow> real list \<Rightarrow> TransportModelTracerTof" where
  "start_of_solve s0 flux pv src =
     s0\<lparr>darcyflux := flux, porevolume := pv, source := src,
        tof := replicate (number_of_cells (grid s0)) 0,
        face_tof := (if use_multidim_upwind s0
                     then replicate (number_of_faces (grid s0)) 0 else face_tof s0)\<rparr>"

subsection \<open>Well-formed topology and the edges of the upwind graph\<close>

text \<open>The faces listed for cell \<open>i\<close> in the raw arrays that \<open>make_upwind_graph\<close> receives.\<close>

definition cell_face_list :: "nat list \<Rightarrow> nat list \<Rightarrow> nat \<Rightarrow> nat list" where
  "cell_face_list cellfaces faceptr i =
     map (\<lambda>j. cellfaces ! j) [faceptr ! i ..< faceptr ! (i + 1)]"

text \<open>The two adjacency arrays describe the same grid of \<open>nc\<close> cells and \<open>nf\<close> faces: no
  cell lists a face twice, every face listed for a cell has that cell on one of its
  two sides, the two sides of a face differ, and every side of a face that is not the
  exterior is a cell that lists the face.\<close>

definition topology_ok :: "nat \<Rightarrow> nat \<Rightarrow> nat list \<Rightarrow> nat list \<Rightarrow> int list \<Rightarrow> bool" where
  "topology_ok nc nf cellfaces faceptr face2cell \<longleftrightarrow>
     (\<forall>i \<in> set [0 ..< nc].
        distinct (cell_face_list cellfaces faceptr i)
        \<and> (\<forall>f \<in> set (cell_face_list cellfaces faceptr i).
              f < nf \<and> (face2cell ! (2 * f) = int i \<or> face2cell ! (2 * f + 1) = int i)))
     \<and> (\<forall>f \<in> set [0 ..< nf].
          face2cell ! (2 * f) \<noteq> face2cell ! (2 * f + 1)
          \<and> (\<forall>c \<in> set [face2cell ! (2 * f), face2cell ! (2 * f + 1)].
                c = - 1
                \<or> (0 \<le> c \<and> nat c < nc
                    \<and> f \<in> set (cell_face_list cellfaces faceptr (nat c)))))"

text \<open>Face \<open>f\<close> joins the cells \<open>i\<close> and \<open>j\<close>, and its signed flux points from \<open>i\<close> into
  \<open>j\<close>: positive when \<open>i\<close> is the first cell of the face, negative when \<open>i\<close> is the
  second.\<close>

definition flows_across :: "int list \<Rightarrow> real list \<Rightarrow> nat \<Rightarrow> nat \<Rightarrow> nat \<Rightarrow> bool" where
  "flows_across face2cell flux f i j \<longleftrightarrow>
     (face2cell ! (2 * f) = int i \<and> face2cell ! (2 * f + 1) = int j \<and> 0 < flux ! f)
     \<or> (face2cell ! (2 * f) = int j \<and> face2cell ! (2 * f + 1) = int i \<and> flux ! f < 0)"

text \<open>The upwind graph has the edge from \<open>i\<close> to \<open>j\<close>: cell \<open>i\<close> is recorded as an upwind
  donor in the row of cell \<open>j\<close>.\<close>

definition upwind_edge :: "nat list \<Rightarrow> nat list \<Rightarrow> nat \<Rightarrow> nat \<Rightarrow> bool" where
  "upwind_edge ia ja i j \<longleftrightarrow> i \<in> set (csr_row ia ja j)"

text \<open>The positions in the face list of cell \<open>i\<close> at which the second loop nest appends
  an entry, and the entries it appends for cell \<open>i\<close>.\<close>

definition inflow_positions ::
  "nat list \<Rightarrow> nat list \<Rightarrow> int list \<Rightarrow> real list \<Rightarrow> nat \<Rightarrow> nat list" where
  "inflow_positions cellfaces faceptr face2cell flux i =
     filter (\<lambda>j. \<not> boundaryface face2cell (cellfaces ! j)
                 \<and> theflux face2cell flux i (cellfaces ! j) < 0)
       [faceptr ! i ..< faceptr ! (i + 1)]"

definition row_entries ::
  "nat list \<Rightarrow> nat list \<Rightarrow> int list \<Rightarrow> real list \<Rightarrow> nat list \<Rightarrow> nat \<Rightarrow> nat list" where
  "row_entries cellfaces faceptr face2cell flux work i =
     map (\<lambda>j. work ! (cellfaces ! j)) (inflow_positions cellfaces faceptr face2cell flux i)"

subsection \<open>Invariants of the component decomposition\<close>

text \<open>The vertices below \<open>nv\<close> that the traversal has not discovered yet.\<close>

definition unvisited :: "nat \<Rightarrow> tarjan_state \<Rightarrow> nat set" where
  "unvisited nv s = {w. w < nv \<and> vstatus s w = REMAINING}"

text \<open>Component boundaries for \<open>n\<close> emitted vertices: they start at 0, end at \<open>n\<close> and
  increase strictly, so that no component is empty.\<close>

definition boundaries_ok :: "nat list \<Rightarrow> nat \<Rightarrow> bool" where
  "boundaries_ok bs n \<longleftrightarrow> bs \<noteq> [] \<and> hd bs = 0 \<and> last bs = n \<and> sorted_wrt (<) bs"

text \<open>What holds of the state between any two steps of the traversal: the stack holds
  exactly the active vertices and the emitted order exactly the finalized ones, each
  once; every discovered vertex is a vertex of the graph and its low-link does not
  exceed its discovery index; the boundaries fit the emitted order.\<close>

definition tarjan_inv :: "nat \<Rightarrow> tarjan_state \<Rightarrow> bool" where
  "tarjan_inv nv s \<longleftrightarrow>
     distinct (vstack s) \<and> distinct (emitted s)
     \<and> set (vstack s) = {v. vstatus s v = ACTIVE}
     \<and> set (emitted s) = {v. vstatus s v = DONE}
     \<and> (\<forall>v. vstatus s v \<noteq> REMAINING \<longrightarrow> v < nv \<and> lowlink s v \<le> discovery s v)
     \<and> boundaries_ok (boundaries s) (length (emitted s))"

text \<open>What a traversal leaves alone: the vertices discovered before it started keep
  their status, discovery index and low-link; the stack only grows on top.\<close>

definition keeps_visited :: "tarjan_state \<Rightarrow> tarjan_state \<Rightarrow> bool" where
  "keeps_visited s s' \<longleftrightarrow>
     (\<forall>x. vstatus s x \<noteq> REMAINING \<longrightarrow>
        vstatus s' x = vstatus s x \<and> discovery s' x = discovery s x
        \<and> lowlink s' x = lowlink s x)
     \<and> clock s \<le> clock s'
     \<and> (\<exists>T. vstack s' = T @ vstack s)"

text \<open>The number \<open>b\<close> is a lower bound of the discovery indices on the stack and of the
  discovery counter.\<close>

definition stack_above :: "nat \<Rightarrow> tarjan_state \<Rightarrow> bool" where
  "stack_above b s \<longleftrightarrow> b \<le> clock s \<and> (\<forall>x \<in> set (vstack s). b \<le> discovery s x)"

text \<open>What the traversal from \<open>v\<close>, started in state \<open>s\<close>, has achieved in state \<open>s'\<close>.\<close>

definition dfs_post :: "nat \<Rightarrow> nat \<Rightarrow> tarjan_state \<Rightarrow> tarjan_state \<Rightarrow> bool" where
  "dfs_post nv v s s' \<longleftrightarrow>
     tarjan_inv nv s' \<and> keeps_visited s s' \<and> vstatus s' v \<noteq> REMAINING
     \<and> (\<forall>b. stack_above b s \<longrightarrow> b \<le> lowlink s' v \<and> stack_above b s')
     \<and> (vstack s = [] \<longrightarrow> vstack s' = [])"

text \<open>What holds while the successors of \<open>v\<close> are examined, \<open>s0\<close> being the state in
  which the traversal from \<open>v\<close> started.\<close>

definition explore_inv :: "nat \<Rightarrow> nat \<Rightarrow> tarjan_state \<Rightarrow> tarjan_state \<Rightarrow> bool" where
  "explore_inv nv v s0 s \<longleftrightarrow>
     tarjan_inv nv s0 \<and> tarjan_inv nv s \<and> keeps_visited s0 s \<and> vstatus s v = ACTIVE
     \<and> vstatus s0 v = REMAINING
     \<and> (\<exists>T. vstack s = T @ v # vstack s0)
     \<and> discovery s v = clock s0 \<and> clock s0 < clock s
     \<and> (\<forall>b. stack_above b s0 \<longrightarrow> b \<le> lowlink s v \<and> stack_above b s)"

text \<open>The rows of the graph name vertices of the graph only.\<close>

definition graph_ok :: "nat \<Rightarrow> nat list \<Rightarrow> nat list \<Rightarrow> bool" where
  "graph_ok nv ia ja \<longleftrightarrow> (\<forall>v \<in> set [0 ..< nv]. \<forall>w \<in> set (csr_row ia ja v). w < nv)"

text \<open>The cells of component \<open>k\<close>: the entries of the sequence between two consecutive
  boundaries.\<close>

definition component_cells :: "nat list \<Rightarrow> nat list \<Rightarrow> nat \<Rightarrow> nat list" where
  "component_cells sequence components k =
     map (\<lambda>p. sequence ! p) [components ! k ..< components ! (k + 1)]"

subsection \<open>What a call returns to its caller\<close>

text \<open>The output vector after a call that returns, the exception after one that
  throws.\<close>

definition tof_output :: "TransportModelTracerTof result \<Rightarrow> error + real list" where
  "tof_output r = (case r of Inl (e, s) \<Rightarrow> Inl e | Inr s \<Rightarrow> Inr (tof s))"

text \<open>A solver object right after its constructor has run.\<close>

definition fresh_solver :: "UnstructuredGrid \<Rightarrow> bool \<Rightarrow> TransportModelTracerTof" where
  "fresh_solver g m =
     \<lparr>grid = g, use_multidim_upwind = m, darcyflux = [], porevolume = [], source = [],
      tof = [], face_tof = []\<rparr>"

subsection \<open>Example grids\<close>

text \<open>Three cells in a row: face 0 joins cells 0 and 1, face 1 joins cells 1 and 2,
  face 2 is the exterior face of cell 2. The node lists play no role without
  multidimensional upwinding and are empty.\<close>

definition chain3 :: UnstructuredGrid where
  "chain3 =
     \<lparr>dimensions = 2, number_of_cells = 3, number_of_faces = 3,
      face_nodes = [], face_nodepos = [0, 0, 0, 0],
      face_cells = [0, 1, 1, 2, 2, - 1],
      cell_faces = [0, 0, 1, 1, 2], cell_facepos = [0, 1, 3, 5]\<rparr>"

text \<open>Two square cells side by side in the plane. The nodes are 0, 1, 2 on the lower
  line and 3, 4, 5 on the upper line; face 1 (nodes 1 and 4) joins cell 0 and cell 1,
  the other six faces are exterior.\<close>

definition quad2 :: UnstructuredGrid where
  "quad2 =
     \<lparr>dimensions = 2, number_of_cells = 2, number_of_faces = 7,
      face_nodes = [0, 3, 1, 4, 2, 5, 0, 1, 3, 4, 1, 2, 4, 5],
      face_nodepos = [0, 2, 4, 6, 8, 10, 12, 14],
      face_cells = [- 1, 0, 0, 1, 1, - 1, 0, - 1, 0, - 1, 1, - 1, 1, - 1],
      cell_faces = [0, 1, 3, 4, 1, 2, 5, 6], cell_facepos = [0, 4, 8]\<rparr>"

text \<open>A solver on \<open>quad2\<close> with multidimensional upwinding, after cell 0 has been
  solved: flux 1 from cell 0 into cell 1, inflow \<open>1/2\<close> into cell 0 through its lower
  face 3.\<close>

definition quad2_state :: TransportModelTracerTof where
  "quad2_state =
     \<lparr>grid = quad2, use_multidim_upwind = True,
      darcyflux = [0, 1, 0, - (1 / 2), 0, 0, 0], porevolume = [1, 1], source = [1, - 1],
      tof = [1, 0], face_tof = [0, 0, 0, 0, 0, 0, 0]\<rparr>"

text \<open>A solver on \<open>chain3\<close> without multidimensional upwinding, after cell 0 has been
  solved.\<close>

definition chain3_state :: TransportModelTracerTof where
  "chain3_state =
     \<lparr>grid = chain3, use_multidim_upwind = False,
      darcyflux = [1, 1, 1], porevolume = [1, 1, 1], source = [1, 0, - 1],
      tof = [1, 0, 0], face_tof = []\<rparr>"

text \<open>Two cells joined by two faces, so that the flow can go round: both faces have
  cell 0 as their first and cell 1 as their second cell. With the fluxes \<open>[2, - 1]\<close>
  face 0 carries 2 from cell 0 into cell 1 and face 1 carries 1 from cell 1 back into
  cell 0; the source \<open>[1, - 1]\<close> balances both cells.\<close>

definition ring2 :: UnstructuredGrid where
  "ring2 =
     \<lparr>dimensions = 2, number_of_cells = 2, number_of_faces = 2,
      face_nodes = [], face_nodepos = [0, 0, 0],
      face_cells = [0, 1, 0, 1],
      cell_faces = [0, 1, 0, 1], cell_facepos = [0, 2, 4]\<rparr>"

text \<open>A solver on \<open>ring2\<close> without multidimensional upwinding, as \<open>solveTof\<close> has set it
  up when the component loop starts.\<close>

definition ring2_state :: TransportModelTracerTof where
  "ring2_state =
     \<lparr>grid = ring2, use_multidim_upwind = False,
      darcyflux = [2, - 1], porevolume = [1, 1], source = [1, - 1],
      tof = [0, 0], face_tof = []\<rparr>"





subsection \<open>One pass over the cells of a component\<close>

text \<open>The solver objects between the updates of one pass over the cells \<open>cs\<close>: update
  number \<open>k\<close>, which is the single-cell update of cell \<open>cs ! k\<close>, returns and takes
  object \<open>ss ! k\<close> to object \<open>ss ! (k + 1)\<close>. There is one update for each listed cell,
  and no other.\<close>

definition updates_in_order ::
  "bool \<Rightarrow> nat list \<Rightarrow> TransportModelTracerTof list \<Rightarrow> bool" where
  "updates_in_order ndebug cs ss \<longleftrightarrow>
     length ss = length cs + 1
     \<and> (\<forall>k < length cs. solveSingleCell ndebug (ss ! k) (cs ! k) = Inr (ss ! (k + 1)))"

text \<open>The upwind term of \<open>cell\<close> when the time of flight of a neighbour \<open>j\<close> is read as
  \<open>v j\<close>.\<close>

definition upwind_term_from :: "TransportModelTracerTof \<Rightarrow> (nat \<Rightarrow> real) \<Rightarrow> nat \<Rightarrow> real" where
  "upwind_term_from s v cell =
     (\<Sum>f \<leftarrow> filter (\<lambda>f. other_cell s cell f \<noteq> - 1 \<and> cell_flux s cell f < 0)
                 (faces_of_cell (grid s) cell).
        cell_flux s cell f * v (nat (other_cell s cell f)))"

text \<open>The time of flight that is stored for cell \<open>j\<close> when the cells \<open>updated\<close> have
  their new values and every other cell still has its old one.\<close>

definition stored_at :: "real list \<Rightarrow> real list \<Rightarrow> nat list \<Rightarrow> nat \<Rightarrow> real" where
  "stored_at old new updated j = (if j \<in> set updated then new ! j else old ! j)"

section \<open>The same code with the rounding of double arithmetic\<close>

text \<open>
  The definitions above compute with exact reals. The program computes with
  \<^verbatim>\<open>double\<close>: every addition, subtraction, multiplication and division returns the
  exact result rounded to a representable number. The definitions of this section
  repeat the arithmetic parts of the code with that rounding made explicit, as a
  function \<open>fl\<close> that is applied to the exact result of each operation, and a decimal
  literal is the rounded value of the number it denotes. Negation, \<^verbatim>\<open>fabs\<close>,
  \<^verbatim>\<open>std::max\<close>, comparisons and the conversion of a small \<^verbatim>\<open>int\<close> are exact. An
  expression is evaluated operation by operation in double precision (no fused
  multiply-add, no extended precision). The parts of the code without double arithmetic
  (the grid, the upwind graph, the sequence) are the ones defined above. With the
  identity for \<open>fl\<close> these definitions are the exact ones above (\<open>exact_rounding\<close>
  below).
\<close>

subsection \<open>Rounding to \<^verbatim>\<open>double\<close>\<close>

text \<open>Rounding to the nearest integer, a tie going to the even one.\<close>

definition round_ties_even :: "real \<Rightarrow> int" where
  "round_ties_even x =
     (let n = \<lfloor>x\<rfloor>; d = x - of_int n
      in if d < 1 / 2 then n else if 1 / 2 < d then n + 1 else if even n then n else n + 1)"

text \<open>Rounding to the nearest number with a significand of 53 bits, a tie going to the
  even significand: the default rounding of the binary64 format. The exponent is not
  bounded here, so this is the rounding of a \<^verbatim>\<open>double\<close> operation for results
  whose magnitude is zero or lies in the normal range, between \<open>2 powr - 1022\<close> and the
  largest finite \<^verbatim>\<open>double\<close>; overflow and subnormal results are not modelled.\<close>

definition binary64 :: "real \<Rightarrow> real" where
  "binary64 x =
     (if x = 0 then 0
      else (let u = 2 powr (of_int \<lfloor>log 2 \<bar>x\<bar>\<rfloor> - 52)
            in of_int (round_ties_even (x / u)) * u))"

subsection \<open>Multidimensional upwind (\<^verbatim>\<open>multidimUpwindTof\<close>)\<close>

definition omega_star_fl ::
  "(real \<Rightarrow> real) \<Rightarrow> TransportModelTracerTof \<Rightarrow> nat \<Rightarrow> nat \<Rightarrow> nat \<Rightarrow> real" where
  "omega_star_fl fl s face upwind_cell f = fl (influx_f s upwind_cell f / flux_face s face)"

definition omega_fl ::
  "(real \<Rightarrow> real) \<Rightarrow> TransportModelTracerTof \<Rightarrow> nat \<Rightarrow> nat \<Rightarrow> nat \<Rightarrow> real" where
  "omega_fl fl s face upwind_cell f =
     (if omega_star_fl fl s face upwind_cell f > 0
      then fl (omega_star_fl fl s face upwind_cell f
               / fl (1 + omega_star_fl fl s face upwind_cell f))
      else 0)"

definition multidimUpwindTof_fl ::
  "(real \<Rightarrow> real) \<Rightarrow> bool \<Rightarrow> TransportModelTracerTof \<Rightarrow> nat \<Rightarrow> nat \<Rightarrow> error + real" where
  "multidimUpwindTof_fl fl ndebug s face upwind_cell =
     (let g = grid s;
          num_nodes = int (face_nodepos g ! (face + 1)) - int (face_nodepos g ! face)
      in if \<not> ndebug \<and> \<not> (num_nodes = 2 \<or> dimensions g \<noteq> 2) then Inl Assertion_failed
         else
           (case adj_faces ndebug g face upwind_cell of
              Inl e \<Rightarrow> Inl e
            | Inr adj \<Rightarrow>
                if \<not> ndebug \<and> int (length adj) \<noteq> num_nodes then Inl Assertion_failed
                else
                  Inr (fl (fold (\<lambda>f acc.
                                   fl (acc
                                       + fl (fl (fl (1 - omega_fl fl s face upwind_cell f)
                                                 * (tof s ! upwind_cell))
                                             + fl (omega_fl fl s face upwind_cell f
                                                   * (face_tof s ! f)))))
                             adj 0
                           / real (length adj)))))"

subsection \<open>The single-cell update (\<^verbatim>\<open>solveSingleCell\<close>)\<close>

definition face_step_fl ::
  "(real \<Rightarrow> real) \<Rightarrow> bool \<Rightarrow> nat \<Rightarrow> nat \<Rightarrow> TransportModelTracerTof \<times> real \<times> real \<Rightarrow>
   (TransportModelTracerTof \<times> real \<times> real) result" where
  "face_step_fl fl ndebug cell i = (\<lambda>(s, upwind_term, downwind_flux).
     (let f = cell_faces (grid s) ! i;
          flux = cell_flux s cell f;
          other = other_cell s cell f
      in if other \<noteq> - 1 then
           (if flux < 0 then
              (if use_multidim_upwind s then
                 (case multidimUpwindTof_fl fl ndebug s f (nat other) of
                    Inl e \<Rightarrow> Inl (e, s)
                  | Inr ftof \<Rightarrow>
                      Inr (s\<lparr>face_tof := (face_tof s)[f := ftof]\<rparr>,
                           fl (upwind_term + fl (flux * ftof)), downwind_flux))
               else Inr (s, fl (upwind_term + fl (flux * (tof s ! nat other))), downwind_flux))
            else Inr (s, upwind_term, fl (downwind_flux + flux)))
         else Inr (s, upwind_term, downwind_flux)))"

definition solveSingleCell_fl ::
  "(real \<Rightarrow> real) \<Rightarrow> bool \<Rightarrow> TransportModelTracerTof \<Rightarrow> nat \<Rightarrow>
   TransportModelTracerTof result" where
  "solveSingleCell_fl fl ndebug s cell =
     (case foldM (face_step_fl fl ndebug cell)
             [cell_facepos (grid s) ! cell ..< cell_facepos (grid s) ! (cell + 1)]
             (s, 0, max (- (source s ! cell)) 0) of
        Inl e \<Rightarrow> Inl e
      | Inr (s', upwind_term, downwind_flux) \<Rightarrow>
          Inr (s'\<lparr>tof := (tof s')[cell := fl (fl (porevolume s' ! cell - upwind_term)
                                              / downwind_flux)]\<rparr>))"

subsection \<open>The multi-cell update and the component loop\<close>

definition solveMultiCell_fl ::
  "(real \<Rightarrow> real) \<Rightarrow> bool \<Rightarrow> TransportModelTracerTof \<Rightarrow> nat \<Rightarrow> nat list \<Rightarrow>
   TransportModelTracerTof result" where
  "solveMultiCell_fl fl ndebug s num_cells cells =
     foldM (\<lambda>i s'. solveSingleCell_fl fl ndebug s' (cells ! i)) [0 ..< num_cells] s"

text \<open>Modelled from the spec: one component of the sequence is solved, as in
  \<open>solve_component\<close>.\<close>

definition solve_component_fl ::
  "(real \<Rightarrow> real) \<Rightarrow> bool \<Rightarrow> nat list \<Rightarrow> nat list \<Rightarrow> nat \<Rightarrow> TransportModelTracerTof \<Rightarrow>
   TransportModelTracerTof result" where
  "solve_component_fl fl ndebug sequence components c s =
     (let comp_size = components ! (c + 1) - components ! c in
      if comp_size = 1 then solveSingleCell_fl fl ndebug s (sequence ! (components ! c))
      else solveMultiCell_fl fl ndebug s comp_size (drop (components ! c) sequence))"

text \<open>Modelled from the spec: the component loop, as in \<open>reorderAndTransport\<close>.\<close>

definition reorderAndTransport_fl ::
  "(real \<Rightarrow> real) \<Rightarrow> bool \<Rightarrow> TransportModelTracerTof \<Rightarrow> UnstructuredGrid \<Rightarrow> real list \<Rightarrow>
   TransportModelTracerTof result" where
  "reorderAndTransport_fl fl ndebug s g flux =
     (case compute_sequence ndebug g flux of
        Inl e \<Rightarrow> Inl (e, s)
      | Inr (sequence, components, ncomponents) \<Rightarrow>
          foldM (solve_component_fl fl ndebug sequence components) [0 ..< ncomponents] s)"

subsection \<open>The entry point (\<^verbatim>\<open>solveTof\<close>)\<close>

text \<open>\<^verbatim>\<open>std::accumulate\<close> adds the sources one by one, and the literal \<^verbatim>\<open>1e-2\<close> is the
  \<^verbatim>\<open>double\<close> nearest to \<open>1/100\<close>.\<close>

definition check_sources_fl ::
  "(real \<Rightarrow> real) \<Rightarrow> bool \<Rightarrow> TransportModelTracerTof \<Rightarrow> real list \<Rightarrow> error option" where
  "check_sources_fl fl ndebug s src =
     (if ndebug then None
      else
        (let cum_src = fold (\<lambda>x acc. fl (acc + x)) (take (number_of_cells (grid s)) src) 0 in
         case max_element (take (number_of_cells (grid s)) src) of
           None \<Rightarrow> Some Invalid_dereference
         | Some m \<Rightarrow>
             if \<bar>cum_src\<bar> > fl (m * fl (1 / 100)) then Some (Sources_do_not_sum_to_zero cum_src)
             else None))"

definition solveTof_fl ::
  "(real \<Rightarrow> real) \<Rightarrow> bool \<Rightarrow> TransportModelTracerTof \<Rightarrow> real list \<Rightarrow> real list \<Rightarrow>
   real list \<Rightarrow> real list \<Rightarrow> TransportModelTracerTof result" where
  "solveTof_fl fl ndebug s0 flux pv src tof_in =
     (let s = s0\<lparr>darcyflux := flux, porevolume := pv, source := src, tof := tof_in\<rparr> in
      case check_sources_fl fl ndebug s src of
        Some e \<Rightarrow> Inl (e, s)
      | None \<Rightarrow>
          (let s1 = s\<lparr>tof := replicate (number_of_cells (grid s)) 0\<rparr>;
               s2 = (if use_multidim_upwind s1
                     then s1\<lparr>face_tof := replicate (number_of_faces (grid s1)) 0\<rparr>
                     else s1)
           in reorderAndTransport_fl fl ndebug s2 (grid s2) flux))"

subsection \<open>Notions for the line of cells\<close>



section \<open>Properties\<close>

subsection \<open>Evaluation of index ranges\<close>

lemma upt_eval: "[i ..< j] = (if i < j then i # [Suc i ..< j] else [])"
  by (simp add: upt_rec)

subsection \<open>The three-cell chain\<close>

lemma chain3_fields:
  "number_of_cells chain3 = 3" "number_of_faces chain3 = 3"
  "face_cells chain3 = [0, 1, 1, 2, 2, - 1]" "cell_faces chain3 = [0, 0, 1, 1, 2]"
  "cell_facepos chain3 = [0, 1, 3, 5]"
  by (simp_all add: chain3_def)

lemma chain3_sequence:
  "compute_sequence ndebug chain3 [1, 1, b] = Inr ([0, 1, 2], [0, 1, 2, 3], 3)"
  by (simp add: compute_sequence_def compute_reorder_sequence_graph_def make_upwind_graph_def
      upwind_cells_def store_upwind_def theflux_def fill_row_def fill_entry_def boundaryface_def
      chain3_fields tarjan_def tarjan_seed_def tarjan_init_def csr_row_def discover_def finish_def
      upt_eval numeral_3_eq_3 eval_nat_numeral)

lemma chain3_check: "grid s = chain3 \<Longrightarrow> check_sources ndebug s [1, 0, - 1] = None"
  by (simp add: check_sources_def max_element_def chain3_fields)

lemma chain3_tof_value:
  "grid s0 = chain3 \<Longrightarrow> \<not> use_multidim_upwind s0 \<Longrightarrow>
   tof_output (solveTof ndebug s0 [1, 1, b] [1, 1, 1] [1, 0, - 1] tof_in) = Inr [1, 2, 3]"
  by (simp add: solveTof_def chain3_check reorderAndTransport_def chain3_sequence
      solve_component_def solveSingleCell_def face_step_def cell_flux_def other_cell_def
      tof_output_def Let_def upt_eval chain3_fields)
     (simp add: numeral_3_eq_3 numeral_2_eq_2)

text \<open>
  Claim C1, as amended. On the three-cell chain with flux 1 on both interior faces (and
  any flux \<open>b\<close> on the exterior face of the last cell), pore volumes \<open>[1, 1, 1]\<close> and
  sources \<open>[1, 0, -1]\<close>, \<open>solveTof\<close> without multidimensional upwinding returns the
  time-of-flight array \<open>[1, 2, 3]\<close>: the source cell gets its own filling time
  \<open>porevolume / downwind_flux = 1\<close>, not \<open>0\<close>, and every later cell one unit more.
\<close>

theorem chain3_tof:
  "grid s0 = chain3 \<Longrightarrow> \<not> use_multidim_upwind s0 \<Longrightarrow>
   tof_output (solveTof ndebug s0 [1, 1, b] [1, 1, 1] [1, 0, - 1] tof_in) = Inr [1, 2, 3]"
  by (rule chain3_tof_value)

theorem chain3_tof_witness:
  "tof_output (solveTof False (fresh_solver chain3 False) [1, 1, 1] [1, 1, 1] [1, 0, - 1] [])
   = Inr [1, 2, 3]"
  using chain3_tof [of "fresh_solver chain3 False" False 1 "[]"]
  by (simp add: fresh_solver_def)

text \<open>Claim C1 as stated fails: the array \<open>[0, 1, 2]\<close> is not what the call returns.\<close>

theorem chain3_tof_counterexample:
  "tof_output (solveTof False (fresh_solver chain3 False) [1, 1, 1] [1, 1, 1] [1, 0, - 1] [])
   \<noteq> Inr [0, 1, 2]"
  by (simp add: solveTof_def chain3_check reorderAndTransport_def chain3_sequence
      solve_component_def solveSingleCell_def face_step_def cell_flux_def other_cell_def
      tof_output_def Let_def upt_eval fresh_solver_def chain3_fields)
     (simp add: numeral_3_eq_3 numeral_2_eq_2)

subsection \<open>Loops with errors\<close>

lemma foldM_append:
  "foldM f (xs @ ys) s = (case foldM f xs s of Inl e \<Rightarrow> Inl e | Inr s' \<Rightarrow> foldM f ys s')"
  by (induction xs arbitrary: s) (auto split: sum.splits)

lemma foldM_map: "foldM (\<lambda>i. f (g i)) xs s = foldM f (map g xs) s"
  by (induction xs arbitrary: s) (auto split: sum.splits)

lemma take_as_map_nth: "n \<le> length xs \<Longrightarrow> take n xs = map (\<lambda>i. xs ! i) [0 ..< n]"
  by (simp add: list_eq_iff_nth_eq)

subsection \<open>The single-cell update without multidimensional upwinding\<close>

lemma face_step_plain:
  "\<not> invokes_multidim s cell (cell_faces (grid s) ! i) \<Longrightarrow>
   face_step ndebug cell i (s, u, d)
   = Inr (s, u + up_part s cell (cell_faces (grid s) ! i),
             d + dn_part s cell (cell_faces (grid s) ! i))"
  by (auto simp: face_step_def invokes_multidim_def up_part_def dn_part_def Let_def)

lemma face_step_multidim:
  "invokes_multidim s cell (cell_faces (grid s) ! i) \<Longrightarrow>
   face_step ndebug cell i (s, u, d)
   = (case multidimUpwindTof ndebug s (cell_faces (grid s) ! i)
             (nat (other_cell s cell (cell_faces (grid s) ! i))) of
        Inl e \<Rightarrow> Inl (e, s)
      | Inr ftof \<Rightarrow>
          Inr (s\<lparr>face_tof := (face_tof s)[cell_faces (grid s) ! i := ftof]\<rparr>,
               u + cell_flux s cell (cell_faces (grid s) ! i) * ftof, d))"
  by (auto simp: face_step_def invokes_multidim_def Let_def split: sum.splits)

lemma face_loop_plain:
  "\<not> use_multidim_upwind s \<Longrightarrow>
   foldM (face_step ndebug cell) js (s, u, d)
   = Inr (s, u + (\<Sum>j \<leftarrow> js. up_part s cell (cell_faces (grid s) ! j)),
             d + (\<Sum>j \<leftarrow> js. dn_part s cell (cell_faces (grid s) ! j)))"
proof (induction js arbitrary: u d)
  case Nil
  show ?case by simp
next
  case (Cons j js)
  from Cons.prems have "\<not> invokes_multidim s cell (cell_faces (grid s) ! j)"
    by (simp add: invokes_multidim_def)
  then show ?case
    using Cons.IH [OF Cons.prems] by (simp add: face_step_plain add.assoc)
qed

lemma sum_up_part:
  "(\<Sum>j \<leftarrow> [cell_facepos (grid s) ! cell ..< cell_facepos (grid s) ! Suc cell].
      up_part s cell (cell_faces (grid s) ! j))
   = upwind_term_of s cell"
proof -
  have "(\<Sum>f \<leftarrow> filter (\<lambda>f. other_cell s cell f \<noteq> - 1 \<and> cell_flux s cell f < 0) fs.
           cell_flux s cell f * (tof s ! nat (other_cell s cell f)))
        = (\<Sum>f \<leftarrow> fs. up_part s cell f)" for fs
    by (induction fs) (auto simp: up_part_def)
  then show ?thesis
    by (simp add: upwind_term_of_def faces_of_cell_def comp_def)
qed

lemma sum_dn_part:
  "(\<Sum>j \<leftarrow> [cell_facepos (grid s) ! cell ..< cell_facepos (grid s) ! Suc cell].
      dn_part s cell (cell_faces (grid s) ! j))
   = downwind_flux_of s cell - max 0 (- (source s ! cell))"
proof -
  have "(\<Sum>f \<leftarrow> filter (\<lambda>f. other_cell s cell f \<noteq> - 1 \<and> 0 < cell_flux s cell f) fs.
           cell_flux s cell f)
        = (\<Sum>f \<leftarrow> fs. dn_part s cell f)" for fs
    by (induction fs) (auto simp: dn_part_def)
  then show ?thesis
    by (simp add: downwind_flux_of_def faces_of_cell_def comp_def)
qed

lemma solveSingleCell_plain:
  "\<not> use_multidim_upwind s \<Longrightarrow>
   solveSingleCell ndebug s cell
   = Inr (s\<lparr>tof := (tof s)[cell := (porevolume s ! cell - upwind_term_of s cell)
                                    / downwind_flux_of s cell]\<rparr>)"
  by (simp add: solveSingleCell_def face_loop_plain sum_up_part sum_dn_part max.commute)

text \<open>
  Claim C2. Without multidimensional upwinding the single-cell update of \<open>cell\<close> returns,
  and all it changes is \<open>tof[cell]\<close>, which becomes
  \<open>(porevolume[cell] - upwind_term) / downwind_flux\<close> (the divisor is taken to be
  different from zero, reals having no infinity). Here \<open>downwind_flux\<close> is
  \<open>max(0, -source[cell])\<close> plus the sum of the outgoing interior face fluxes, and
  \<open>upwind_term\<close> is the sum over the incoming interior faces of the face flux times the
  time of flight stored for the neighbour. The source term does not enter
  \<open>upwind_term\<close>: replacing the source array leaves it as it is.
\<close>

theorem single_cell_balance:
  assumes "\<not> use_multidim_upwind s" and "downwind_flux_of s cell \<noteq> 0"
  shows "solveSingleCell ndebug s cell
   = Inr (s\<lparr>tof := (tof s)[cell := (porevolume s ! cell - upwind_term_of s cell)
                                    / downwind_flux_of s cell]\<rparr>)
   \<and> upwind_term_of (s\<lparr>source := src\<rparr>) cell = upwind_term_of s cell"
proof -
  have "cell_flux (s\<lparr>source := src\<rparr>) cell = cell_flux s cell"
    and "other_cell (s\<lparr>source := src\<rparr>) cell = other_cell s cell"
    by (simp_all add: fun_eq_iff cell_flux_def other_cell_def)
  then have "upwind_term_of (s\<lparr>source := src\<rparr>) cell = upwind_term_of s cell"
    by (simp add: upwind_term_of_def)
  with assms(1) show ?thesis
    by (simp add: solveSingleCell_plain)
qed

subsection \<open>Evaluation on the example states\<close>

lemma chain3_state_fields:
  "grid chain3_state = chain3" "\<not> use_multidim_upwind chain3_state"
  "darcyflux chain3_state = [1, 1, 1]" "porevolume chain3_state = [1, 1, 1]"
  "source chain3_state = [1, 0, - 1]" "tof chain3_state = [1, 0, 0]"
  by (simp_all add: chain3_state_def)

lemma chain3_cell1:
  "upwind_term_of chain3_state (Suc 0) = - 1" "downwind_flux_of chain3_state (Suc 0) = 1"
  by (simp_all add: upwind_term_of_def downwind_flux_of_def faces_of_cell_def
      other_cell_def cell_flux_def chain3_state_fields chain3_fields upt_eval)

theorem single_cell_balance_witness:
  "\<not> use_multidim_upwind chain3_state
   \<and> downwind_flux_of chain3_state 1 \<noteq> 0
   \<and> tof_output (solveSingleCell False chain3_state 1) = Inr [1, 2, 0]"
  using single_cell_balance [where s = chain3_state and cell = 1 and ndebug = False
      and src = "[]"]
  by (simp add: chain3_cell1 chain3_state_fields tof_output_def)

subsection \<open>When the multidimensional upwind value is computed\<close>

lemma quad2_fields:
  "dimensions quad2 = 2" "number_of_cells quad2 = 2" "number_of_faces quad2 = 7"
  "face_nodes quad2 = [0, 3, 1, 4, 2, 5, 0, 1, 3, 4, 1, 2, 4, 5]"
  "face_nodepos quad2 = [0, 2, 4, 6, 8, 10, 12, 14]"
  "face_cells quad2 = [- 1, 0, 0, 1, 1, - 1, 0, - 1, 0, - 1, 1, - 1, 1, - 1]"
  "cell_faces quad2 = [0, 1, 3, 4, 1, 2, 5, 6]" "cell_facepos quad2 = [0, 4, 8]"
  by (simp_all add: quad2_def)

lemma quad2_state_fields:
  "grid quad2_state = quad2" "use_multidim_upwind quad2_state"
  "darcyflux quad2_state = [0, 1, 0, - (1 / 2), 0, 0, 0]" "porevolume quad2_state = [1, 1]"
  "source quad2_state = [1, - 1]" "tof quad2_state = [1, 0]"
  "face_tof quad2_state = [0, 0, 0, 0, 0, 0, 0]"
  by (simp_all add: quad2_state_def)

text \<open>
  Claim C10. The loop body of \<open>solveSingleCell\<close> for \<open>cell\<close> and the face \<open>f\<close> at position
  \<open>i\<close> calls \<open>multidimUpwindTof\<close> only under the three tests collected in
  \<open>invokes_multidim\<close>, one of which is that the flux of \<open>f\<close> out of \<open>cell\<close> is
  strictly negative: where they fail the step is the plain one and does not involve
  \<open>multidimUpwindTof\<close>, where they hold the step is the one that calls it for \<open>f\<close>.
  Whenever they hold, the divisor \<open>flux_face = |darcyflux[f]|\<close> of \<open>omega_star\<close> is
  strictly positive.
\<close>

theorem multidim_divisor_positive:
  fixes s :: TransportModelTracerTof and i :: nat
  defines "f \<equiv> cell_faces (grid s) ! i"
  shows "(invokes_multidim s cell f \<longrightarrow>
            cell_flux s cell f < 0 \<and> 0 < flux_face s f
            \<and> omega_star s f (nat (other_cell s cell f)) f'
                = influx_f s (nat (other_cell s cell f)) f' / flux_face s f
            \<and> face_step ndebug cell i (s, u, d)
                = (case multidimUpwindTof ndebug s f (nat (other_cell s cell f)) of
                     Inl e \<Rightarrow> Inl (e, s)
                   | Inr ftof \<Rightarrow>
                       Inr (s\<lparr>face_tof := (face_tof s)[f := ftof]\<rparr>,
                            u + cell_flux s cell f * ftof, d)))
         \<and> (\<not> invokes_multidim s cell f \<longrightarrow>
              face_step ndebug cell i (s, u, d)
                = Inr (s, u + up_part s cell f, d + dn_part s cell f))"
proof -
  have "0 < flux_face s f" if "invokes_multidim s cell f"
    using that by (auto simp: invokes_multidim_def cell_flux_def flux_face_def split: if_splits)
  moreover have "cell_flux s cell f < 0" if "invokes_multidim s cell f"
    using that by (simp add: invokes_multidim_def)
  ultimately show ?thesis
    unfolding f_def by (simp add: face_step_plain face_step_multidim omega_star_def)
qed

theorem multidim_divisor_positive_witness:
  "invokes_multidim quad2_state 1 (cell_faces (grid quad2_state) ! 4)
   \<and> 0 < flux_face quad2_state (cell_faces (grid quad2_state) ! 4)
   \<and> \<not> invokes_multidim quad2_state 1 (cell_faces (grid quad2_state) ! 5)
   \<and> face_step False 1 5 (quad2_state, 0, 1) = Inr (quad2_state, 0, 1)"
  using multidim_divisor_positive [of quad2_state 1 4 0 False 0 1]
    multidim_divisor_positive [of quad2_state 1 5 0 False 0 1]
  by (simp add: invokes_multidim_def other_cell_def cell_flux_def up_part_def dn_part_def
      quad2_state_fields quad2_fields)

subsection \<open>The multidimensional upwind value\<close>

lemma fold_add_sum_list:
  "fold (\<lambda>x (acc::real). acc + h x) xs a = a + (\<Sum>x \<leftarrow> xs. h x)"
  by (induction xs arbitrary: a) (simp_all add: add.assoc)

lemma fold_add_count:
  "fold (\<lambda>x (n::nat). n + h x) xs a = a + (\<Sum>x \<leftarrow> xs. h x)"
  by (induction xs arbitrary: a) (simp_all add: add.assoc)

lemma count_list_distinct: "distinct xs \<Longrightarrow> count_list xs x = (if x \<in> set xs then 1 else 0)"
  by (induction xs) auto

lemma sum_list_indicator:
  "distinct ys \<Longrightarrow> (\<Sum>x \<leftarrow> ys. if x \<in> A then 1 else 0) = card (A \<inter> set ys)"
proof (induction ys)
  case Nil
  show ?case by simp
next
  case (Cons y ys)
  then have "y \<notin> set ys" and IH: "(\<Sum>x \<leftarrow> ys. if x \<in> A then 1 else 0) = card (A \<inter> set ys)"
    by simp_all
  show ?case
  proof (cases "y \<in> A")
    case True
    then have "A \<inter> set (y # ys) = insert y (A \<inter> set ys)" by auto
    with \<open>y \<notin> set ys\<close> True IH show ?thesis by simp
  next
    case False
    then have "A \<inter> set (y # ys) = A \<inter> set ys" by auto
    with False IH show ?thesis by simp
  qed
qed

lemma num_common_shared:
  assumes "distinct (nodes_of_face g face)" and "distinct (nodes_of_face g f)"
  shows "num_common g face f = shared_nodes g face f"
proof -
  have "num_common g face f
        = (\<Sum>x \<leftarrow> nodes_of_face g f. if x \<in> set (nodes_of_face g face) then 1 else 0)"
    using assms(1) by (simp add: num_common_def fold_add_count count_list_distinct)
  also have "\<dots> = card (set (nodes_of_face g face) \<inter> set (nodes_of_face g f))"
    using assms(2) by (rule sum_list_indicator)
  finally show ?thesis by (simp add: shared_nodes_def)
qed

lemma adj_loop:
  "foldM (adj_step ndebug g face) js acc = Inr adj \<Longrightarrow>
   adj = acc @ filter (\<lambda>f. f \<noteq> face \<and> int (num_common g face f) = dimensions g - 1)
                 (map (\<lambda>j. cell_faces g ! j) js)"
proof (induction js arbitrary: acc)
  case Nil
  then show ?case by simp
next
  case (Cons j js)
  show ?case
  proof (cases "adj_step ndebug g face j acc")
    case (Inl e)
    with Cons.prems show ?thesis by simp
  next
    case (Inr acc')
    with Cons.prems have "foldM (adj_step ndebug g face) js acc' = Inr adj" by simp
    from Cons.IH [OF this] Inr show ?thesis
      by (auto simp: adj_step_def Let_def split: if_splits)
  qed
qed

lemma adj_faces_adjacent:
  assumes "adj_faces ndebug g face u = Inr adj"
    and "distinct (nodes_of_face g face)"
    and "\<forall>f \<in> set (faces_of_cell g u). distinct (nodes_of_face g f)"
  shows "adj = adjacent_faces g face u"
proof -
  have "adj = filter (\<lambda>f. f \<noteq> face \<and> int (num_common g face f) = dimensions g - 1)
                (faces_of_cell g u)"
    using adj_loop [of ndebug g face _ "[]" adj] assms(1)
    by (simp add: adj_faces_def faces_of_cell_def)
  also have "\<dots> = adjacent_faces g face u"
    unfolding adjacent_faces_def
    by (rule filter_cong) (use assms(2,3) in \<open>simp_all add: num_common_shared\<close>)
  finally show ?thesis .
qed

lemma multidimUpwindTof_mean:
  assumes "multidimUpwindTof ndebug s face u = Inr v"
    and "distinct (nodes_of_face (grid s) face)"
    and "\<forall>f \<in> set (faces_of_cell (grid s) u). distinct (nodes_of_face (grid s) f)"
  shows "v = (\<Sum>f \<leftarrow> adjacent_faces (grid s) face u. blend s face u f)
             / real (length (adjacent_faces (grid s) face u))"
proof -
  from assms(1) obtain adj where adj: "adj_faces ndebug (grid s) face u = Inr adj"
    and v: "v = fold (\<lambda>f acc. acc + ((1 - omega s face u f) * (tof s ! u)
                                      + omega s face u f * (face_tof s ! f))) adj 0
                / real (length adj)"
    by (auto simp: multidimUpwindTof_def Let_def split: if_splits sum.splits)
  from adj_faces_adjacent [OF adj assms(2,3)] v show ?thesis
    by (simp add: fold_add_sum_list blend_def)
qed

text \<open>
  Claim C6. Let the node lists of the faces involved have no repeated node, let the flux
  of \<open>face\<close> be different from zero and let \<open>face\<close> have an adjacent face (so that no
  divisor is zero). When \<open>multidimUpwindTof\<close> returns a value for face \<open>face\<close> and
  upstream cell \<open>u\<close>, that value
  is the arithmetic mean, over the faces \<open>f\<close> of \<open>u\<close> that share exactly
  \<open>dimensions - 1\<close> nodes with \<open>face\<close>, of \<open>(1 - omega) * tof[u] + omega * face_tof[f]\<close>,
  where \<open>omega = omega_star / (1 + omega_star)\<close> if
  \<open>omega_star = inflow(f) / |flux(face)|\<close> is positive and \<open>omega = 0\<close> otherwise. In the
  single-cell update of \<open>cell\<close>, a step that reaches an incoming interior face (position
  \<open>i\<close>, \<open>u\<close> the cell on the other side) and returns has stored that value in the face
  auxiliary array and has added the face flux times that value to \<open>upwind_term\<close>.
\<close>

theorem multidim_value_is_mean:
  fixes s :: TransportModelTracerTof and i :: nat
  defines "face \<equiv> cell_faces (grid s) ! i"
  assumes "distinct (nodes_of_face (grid s) face)"
    and "\<forall>f \<in> set (faces_of_cell (grid s) u). distinct (nodes_of_face (grid s) f)"
    and "multidimUpwindTof ndebug s face u = Inr v"
    and "darcyflux s ! face \<noteq> 0" and "adjacent_faces (grid s) face u \<noteq> []"
  shows "v = (\<Sum>f \<leftarrow> adjacent_faces (grid s) face u.
                 (1 - omega s face u f) * (tof s ! u) + omega s face u f * (face_tof s ! f))
             / real (length (adjacent_faces (grid s) face u))
    \<and> omega s face u f' =
           (if 0 < influx_f s u f' / \<bar>darcyflux s ! face\<bar>
            then (influx_f s u f' / \<bar>darcyflux s ! face\<bar>)
                 / (1 + influx_f s u f' / \<bar>darcyflux s ! face\<bar>)
            else 0)
    \<and> influx_f s u f'
           = (if face_cells (grid s) ! (2 * f') = int u then - (darcyflux s ! f')
              else darcyflux s ! f')
    \<and> (invokes_multidim s cell face \<and> nat (other_cell s cell face) = u \<longrightarrow>
         face_step ndebug cell i (s, up, dn)
         = Inr (s\<lparr>face_tof := (face_tof s)[face := v]\<rparr>, up + cell_flux s cell face * v, dn))"
proof -
  have "v = (\<Sum>f \<leftarrow> adjacent_faces (grid s) face u.
                 (1 - omega s face u f) * (tof s ! u) + omega s face u f * (face_tof s ! f))
             / real (length (adjacent_faces (grid s) face u))"
    using multidimUpwindTof_mean [OF assms(4,2,3)] by (simp add: blend_def)
  moreover have "omega s face u f' =
           (if 0 < influx_f s u f' / \<bar>darcyflux s ! face\<bar>
            then (influx_f s u f' / \<bar>darcyflux s ! face\<bar>)
                 / (1 + influx_f s u f' / \<bar>darcyflux s ! face\<bar>)
            else 0)"
    by (simp add: omega_def omega_star_def flux_face_def)
  moreover have "influx_f s u f'
           = (if face_cells (grid s) ! (2 * f') = int u then - (darcyflux s ! f')
              else darcyflux s ! f')"
    by (simp add: influx_f_def)
  moreover have "face_step ndebug cell i (s, up, dn)
         = Inr (s\<lparr>face_tof := (face_tof s)[face := v]\<rparr>, up + cell_flux s cell face * v, dn)"
    if "invokes_multidim s cell face" "nat (other_cell s cell face) = u"
    using that assms(4) unfolding face_def by (simp add: face_step_multidim)
  ultimately show ?thesis by blast
qed

lemma quad2_nodes:
  "nodes_of_face quad2 0 = [0, 3]" "nodes_of_face quad2 (Suc 0) = [1, 4]"
  "nodes_of_face quad2 3 = [0, 1]" "nodes_of_face quad2 4 = [3, 4]"
  "faces_of_cell quad2 0 = [0, 1, 3, 4]"
  by (simp_all add: nodes_of_face_def faces_of_cell_def quad2_fields upt_eval
      eval_nat_numeral)

lemma quad2_adjacent: "adjacent_faces quad2 (Suc 0) 0 = [3, 4]"
  by (simp add: adjacent_faces_def shared_nodes_def quad2_nodes quad2_fields)

lemma quad2_multidim: "multidimUpwindTof False quad2_state (Suc 0) 0 = Inr (5 / 6)"
  by (simp add: multidimUpwindTof_def adj_faces_def adj_step_def num_common_def
      nodes_of_face_def omega_def omega_star_def influx_f_def flux_face_def
      quad2_state_fields quad2_fields upt_eval eval_nat_numeral Let_def)

theorem multidim_value_is_mean_witness:
  "distinct (nodes_of_face (grid quad2_state) (cell_faces (grid quad2_state) ! 4))
   \<and> list_all (\<lambda>f. distinct (nodes_of_face (grid quad2_state) f))
         (faces_of_cell (grid quad2_state) 0)
   \<and> multidimUpwindTof False quad2_state (cell_faces (grid quad2_state) ! 4) 0 = Inr (5 / 6)
   \<and> darcyflux quad2_state ! (cell_faces (grid quad2_state) ! 4) \<noteq> 0
   \<and> adjacent_faces (grid quad2_state) (cell_faces (grid quad2_state) ! 4) 0 \<noteq> []
   \<and> invokes_multidim quad2_state 1 (cell_faces (grid quad2_state) ! 4)
   \<and> (5 / 6 :: real)
       = ((1 - omega quad2_state 1 0 3) * 1 + omega quad2_state 1 0 3 * 0
          + ((1 - omega quad2_state 1 0 4) * 1 + omega quad2_state 1 0 4 * 0)) / 2
   \<and> face_step False 1 4 (quad2_state, 0, 1)
       = Inr (quad2_state\<lparr>face_tof := [0, 5 / 6, 0, 0, 0, 0, 0]\<rparr>, - (5 / 6), 1)"
proof -
  have f: "cell_faces quad2 ! 4 = Suc 0"
    by (simp add: quad2_fields)
  have d1: "distinct (nodes_of_face (grid quad2_state) (cell_faces (grid quad2_state) ! 4))"
    by (simp add: f quad2_state_fields quad2_nodes)
  have d2: "\<forall>f \<in> set (faces_of_cell (grid quad2_state) 0).
              distinct (nodes_of_face (grid quad2_state) f)"
    by (simp add: quad2_state_fields quad2_nodes)
  have m: "multidimUpwindTof False quad2_state (cell_faces (grid quad2_state) ! 4) 0
           = Inr (5 / 6)"
    by (simp add: f quad2_state_fields(1) quad2_multidim)
  have nz: "darcyflux quad2_state ! (cell_faces (grid quad2_state) ! 4) \<noteq> 0"
    "adjacent_faces (grid quad2_state) (cell_faces (grid quad2_state) ! 4) 0 \<noteq> []"
    by (simp_all add: f quad2_state_fields quad2_adjacent)
  have inv: "invokes_multidim quad2_state 1 (cell_faces (grid quad2_state) ! 4)"
    and oth: "nat (other_cell quad2_state 1 (cell_faces (grid quad2_state) ! 4)) = 0"
    and fl: "cell_flux quad2_state 1 (cell_faces (grid quad2_state) ! 4) = - 1"
    by (simp_all add: f invokes_multidim_def other_cell_def cell_flux_def
        quad2_state_fields quad2_fields)
  from multidim_value_is_mean [OF d1 d2 m nz, of 0 1 0 1] d1 d2 m nz inv oth fl show ?thesis
    by (simp add: f quad2_state_fields quad2_adjacent list_all_iff)
qed

subsection \<open>The sanity check on the sources\<close>





lemma solveTof_after_check:
  "check_sources ndebug (s0\<lparr>darcyflux := flux, porevolume := pv, source := src, tof := tof_in\<rparr>)
     src = None \<Longrightarrow>
   solveTof ndebug s0 flux pv src tof_in
   = reorderAndTransport ndebug (start_of_solve s0 flux pv src) (grid s0) flux"
  by (simp add: solveTof_def start_of_solve_def Let_def)




subsection \<open>The output does not depend on what the arrays held before\<close>

lemma plain_terms_face_tof:
  "upwind_term_of (s\<lparr>face_tof := x\<rparr>) cell = upwind_term_of s cell"
  "downwind_flux_of (s\<lparr>face_tof := x\<rparr>) cell = downwind_flux_of s cell"
proof -
  have "cell_flux (s\<lparr>face_tof := x\<rparr>) cell = cell_flux s cell"
    and "other_cell (s\<lparr>face_tof := x\<rparr>) cell = other_cell s cell"
    by (simp_all add: fun_eq_iff cell_flux_def other_cell_def)
  then show "upwind_term_of (s\<lparr>face_tof := x\<rparr>) cell = upwind_term_of s cell"
    and "downwind_flux_of (s\<lparr>face_tof := x\<rparr>) cell = downwind_flux_of s cell"
    by (simp_all add: upwind_term_of_def downwind_flux_of_def)
qed

lemma solveSingleCell_face_tof:
  assumes "\<not> use_multidim_upwind s"
  shows "\<exists>t. solveSingleCell ndebug s c = Inr t \<and> \<not> use_multidim_upwind t
             \<and> solveSingleCell ndebug (s\<lparr>face_tof := x\<rparr>) c = Inr (t\<lparr>face_tof := x\<rparr>)"
  using assms by (simp add: solveSingleCell_plain plain_terms_face_tof)

lemma foldM_face_tof:
  assumes step: "\<And>a s. \<not> use_multidim_upwind s \<Longrightarrow>
             \<exists>t. f a s = Inr t \<and> \<not> use_multidim_upwind t
                 \<and> f a (s\<lparr>face_tof := x\<rparr>) = Inr (t\<lparr>face_tof := x\<rparr>)"
    and "\<not> use_multidim_upwind s"
  shows "\<exists>t. foldM f as s = Inr t \<and> \<not> use_multidim_upwind t
             \<and> foldM f as (s\<lparr>face_tof := x\<rparr>) = Inr (t\<lparr>face_tof := x\<rparr>)"
  using assms(2)
proof (induction as arbitrary: s)
  case Nil
  then show ?case by simp
next
  case (Cons a as)
  from step [OF Cons.prems, of a] obtain t where t: "f a s = Inr t" "\<not> use_multidim_upwind t"
    "f a (s\<lparr>face_tof := x\<rparr>) = Inr (t\<lparr>face_tof := x\<rparr>)" by blast
  from Cons.IH [OF t(2)] t(1,3) show ?case by simp
qed

lemma solve_component_face_tof:
  assumes "\<not> use_multidim_upwind s"
  shows "\<exists>t. solve_component ndebug sq cs c s = Inr t \<and> \<not> use_multidim_upwind t
             \<and> solve_component ndebug sq cs c (s\<lparr>face_tof := x\<rparr>) = Inr (t\<lparr>face_tof := x\<rparr>)"
proof (cases "cs ! (c + 1) - cs ! c = 1")
  case True
  then show ?thesis
    using solveSingleCell_face_tof [OF assms] by (simp add: solve_component_def)
next
  case False
  have "\<exists>t. solveMultiCell ndebug s n cells = Inr t \<and> \<not> use_multidim_upwind t
             \<and> solveMultiCell ndebug (s\<lparr>face_tof := x\<rparr>) n cells = Inr (t\<lparr>face_tof := x\<rparr>)"
    for n cells
    unfolding solveMultiCell_def
    by (rule foldM_face_tof [OF _ assms]) (rule solveSingleCell_face_tof)
  with False show ?thesis by (simp add: solve_component_def)
qed

lemma reorderAndTransport_face_tof:
  assumes "\<not> use_multidim_upwind s"
  shows "tof_output (reorderAndTransport ndebug (s\<lparr>face_tof := x\<rparr>) g flux)
         = tof_output (reorderAndTransport ndebug s g flux)"
proof (cases "compute_sequence ndebug g flux")
  case (Inl e)
  then show ?thesis by (simp add: reorderAndTransport_def tof_output_def)
next
  case (Inr r)
  obtain sq cs n where r: "r = (sq, cs, n)" by (cases r)
  have "\<exists>t. foldM (solve_component ndebug sq cs) [0 ..< n] s = Inr t \<and> \<not> use_multidim_upwind t
          \<and> foldM (solve_component ndebug sq cs) [0 ..< n] (s\<lparr>face_tof := x\<rparr>)
              = Inr (t\<lparr>face_tof := x\<rparr>)"
    by (rule foldM_face_tof [OF _ assms]) (rule solve_component_face_tof)
  with Inr r show ?thesis by (auto simp: reorderAndTransport_def tof_output_def)
qed

lemma check_sources_grid:
  "grid s = grid s' \<Longrightarrow> check_sources ndebug s src = check_sources ndebug s' src"
  by (simp add: check_sources_def)

text \<open>
  Claim C7. Two calls of \<open>solveTof\<close> with the same grid, the same upwinding mode and the
  same flux, pore volume and source arrays return the same time-of-flight array (or
  throw the same exception), whatever the solver object's arrays and the caller's output
  vector held before either call: the output vector is resized and zeroed, the face
  auxiliary array is zeroed when multidimensional upwinding is on and is not read when
  it is off.
\<close>

theorem solveTof_deterministic:
  assumes "grid s1 = grid s2" and "use_multidim_upwind s1 = use_multidim_upwind s2"
  shows "tof_output (solveTof ndebug s1 flux pv src tof1)
         = tof_output (solveTof ndebug s2 flux pv src tof2)"
proof -
  let ?a1 = "s1\<lparr>darcyflux := flux, porevolume := pv, source := src, tof := tof1\<rparr>"
  let ?a2 = "s2\<lparr>darcyflux := flux, porevolume := pv, source := src, tof := tof2\<rparr>"
  have chk: "check_sources ndebug ?a1 src = check_sources ndebug ?a2 src"
    by (rule check_sources_grid) (simp add: assms)
  show ?thesis
  proof (cases "check_sources ndebug ?a2 src")
    case (Some e)
    with chk show ?thesis by (simp add: solveTof_def tof_output_def Let_def)
  next
    case None
    with chk have 1: "solveTof ndebug s1 flux pv src tof1
        = reorderAndTransport ndebug (start_of_solve s1 flux pv src) (grid s1) flux"
      and 2: "solveTof ndebug s2 flux pv src tof2
        = reorderAndTransport ndebug (start_of_solve s2 flux pv src) (grid s2) flux"
      by (simp_all add: solveTof_after_check)
    show ?thesis
    proof (cases "use_multidim_upwind s2")
      case True
      with assms have "start_of_solve s1 flux pv src = start_of_solve s2 flux pv src"
        by (cases s1, cases s2) (simp add: start_of_solve_def)
      with 1 2 assms show ?thesis by simp
    next
      case False
      with assms have eq: "start_of_solve s1 flux pv src
          = (start_of_solve s2 flux pv src)\<lparr>face_tof := face_tof s1\<rparr>"
        by (cases s1, cases s2) (simp add: start_of_solve_def)
      from False have "\<not> use_multidim_upwind (start_of_solve s2 flux pv src)"
        by (simp add: start_of_solve_def)
      from reorderAndTransport_face_tof [OF this] 1 2 eq assms show ?thesis by simp
    qed
  qed
qed

theorem solveTof_deterministic_witness:
  "grid (fresh_solver chain3 False) = grid chain3_state
   \<and> use_multidim_upwind (fresh_solver chain3 False) = use_multidim_upwind chain3_state
   \<and> tof_output (solveTof False chain3_state [1, 1, 1] [1, 1, 1] [1, 0, - 1] [5, 5])
       = Inr [1, 2, 3]"
  using solveTof_deterministic [of "fresh_solver chain3 False" chain3_state False
      "[1, 1, 1]" "[1, 1, 1]" "[1, 0, - 1]" "[]" "[5, 5]"]
    chain3_tof_value [of "fresh_solver chain3 False" False 1 "[]"]
  by (simp add: fresh_solver_def chain3_state_def)

subsection \<open>Folds that establish and keep a property\<close>

lemma fold_keeps:
  assumes "I s" and "\<And>y s. y \<in> set xs \<Longrightarrow> I s \<Longrightarrow> I (g y s)"
  shows "I (fold g xs s)"
  using assms by (induction xs arbitrary: s) simp_all

lemma fold_establishes:
  assumes "x \<in> set xs" and "I s"
    and keep: "\<And>y s. y \<in> set xs \<Longrightarrow> I s \<Longrightarrow> I (g y s)"
    and make: "\<And>s. I s \<Longrightarrow> P (g x s)"
    and hold: "\<And>y s. y \<in> set xs \<Longrightarrow> I s \<Longrightarrow> P s \<Longrightarrow> P (g y s)"
  shows "P (fold g xs s)"
proof -
  have "I s \<Longrightarrow> x \<in> set ys \<or> P s \<Longrightarrow> set ys \<subseteq> set xs \<Longrightarrow> P (fold g ys s)" for ys s
  proof (induction ys arbitrary: s)
    case Nil
    then show ?case by simp
  next
    case (Cons y ys)
    have y: "y \<in> set xs" and sub: "set ys \<subseteq> set xs" using Cons.prems(3) by auto
    have I': "I (g y s)" using keep [OF y Cons.prems(1)] .
    have "x \<in> set ys \<or> P (g y s)"
    proof (cases "P s")
      case True
      then show ?thesis using hold [OF y Cons.prems(1)] by simp
    next
      case False
      with Cons.prems(2) have "x = y \<or> x \<in> set ys" by auto
      then show ?thesis using make [OF Cons.prems(1)] by auto
    qed
    from Cons.IH [OF I' this sub] show ?case by simp
  qed
  from this [of s xs] assms(1,2) show ?thesis by simp
qed

lemma fold_related:
  assumes "R a b" and "\<And>x a b. x \<in> set xs \<Longrightarrow> R a b \<Longrightarrow> R (f x a) (g x b)"
  shows "R (fold f xs a) (fold g xs b)"
  using assms by (induction xs arbitrary: a b) simp_all

subsection \<open>The first loop nest: the upwind cell of every face\<close>

lemma length_store_upwind [simp]:
  "length (store_upwind cellfaces face2cell flux i j work) = length work"
  by (simp add: store_upwind_def Let_def)

lemma length_upwind_cells [simp]:
  "length (upwind_cells nc cellfaces faceptr face2cell flux work) = length work"
  unfolding upwind_cells_def
  by (rule fold_keeps [where I = "\<lambda>w. length w = length work"], simp)
     (rule fold_keeps, simp_all)

lemma theflux_sides:
  assumes "face2cell ! (2 * f) \<noteq> face2cell ! (2 * f + 1)"
    and "face2cell ! (2 * f) = int i \<or> face2cell ! (2 * f + 1) = int i"
    and "face2cell ! (2 * f) = int u \<or> face2cell ! (2 * f + 1) = int u"
    and "i \<noteq> u"
  shows "theflux face2cell flux i f = - theflux face2cell flux u f"
  using assms by (auto simp: theflux_def)

lemma upwind_cells_nth:
  assumes ok: "topology_ok nc nf cellfaces faceptr face2cell"
    and u: "u < nc" "f \<in> set (cell_face_list cellfaces faceptr u)"
    and pos: "0 < theflux face2cell flux u f"
    and len: "nf \<le> length work"
  shows "upwind_cells nc cellfaces faceptr face2cell flux work ! f = u"
proof -
  let ?I = "\<lambda>w::nat list. length w = length work"
  let ?P = "\<lambda>w::nat list. w ! f = u"
  let ?row = "\<lambda>i. [faceptr ! i ..< faceptr ! (i + 1)]"
  let ?step = "store_upwind cellfaces face2cell flux"
  from ok u have f: "f < nf"
    and fu: "face2cell ! (2 * f) = int u \<or> face2cell ! (2 * f + 1) = int u"
    by (auto simp: topology_ok_def)
  from ok f have sides: "face2cell ! (2 * f) \<noteq> face2cell ! (2 * f + 1)"
    by (auto simp: topology_ok_def)
  have hold_step: "?P (?step i j w)" if "i < nc" "j \<in> set (?row i)" "?I w" "?P w" for i j w
  proof (cases "cellfaces ! j = f \<and> 0 < theflux face2cell flux i f")
    case True
    from that(1,2) True have "f \<in> set (cell_face_list cellfaces faceptr i)"
      by (auto simp: cell_face_list_def)
    with ok that(1) have fi: "face2cell ! (2 * f) = int i \<or> face2cell ! (2 * f + 1) = int i"
      by (auto simp: topology_ok_def)
    have "i = u"
    proof (rule ccontr)
      assume "i \<noteq> u"
      from theflux_sides [OF sides fi fu this, of flux] True pos show False by simp
    qed
    with that(3) f len True show ?thesis by (simp add: store_upwind_def)
  next
    case False
    with that(4) show ?thesis
      by (cases "cellfaces ! j = f") (auto simp: store_upwind_def Let_def)
  qed
  have keep_row: "?I (fold (?step i) (?row i) w)" if "?I w" for i w
    using that by (intro fold_keeps [where I = ?I]) simp_all
  have hold_row: "?P (fold (?step i) (?row i) w)" if "i < nc" "?I w" "?P w" for i w
  proof -
    have "?I (fold (?step i) (?row i) w) \<and> ?P (fold (?step i) (?row i) w)"
      by (rule fold_keeps [where I = "\<lambda>w. ?I w \<and> ?P w"])
         (use that hold_step in \<open>simp_all\<close>)
    then show ?thesis ..
  qed
  from u(2) obtain j0 where j0: "j0 \<in> set (?row u)" "cellfaces ! j0 = f"
    by (auto simp: cell_face_list_def)
  have make_row: "?P (fold (?step u) (?row u) w)" if "?I w" for w
  proof (rule fold_establishes [where I = ?I and x = j0])
    show "j0 \<in> set (?row u)" by (rule j0)
    show "?I w" by (rule that)
    show "?I (?step u y s)" if "?I s" for y s using that by simp
    show "?P (?step u j0 s)" if "?I s" for s
      using that j0 pos f len by (simp add: store_upwind_def)
    show "?P (?step u y s)" if "y \<in> set (?row u)" "?I s" "?P s" for y s
      using hold_step [OF u(1) that] .
  qed
  show ?thesis
    unfolding upwind_cells_def
  proof (rule fold_establishes [where I = ?I and x = u])
    show "u \<in> set [0 ..< nc]" using u(1) by simp
    show "?I work" by simp
    show "?I (fold (?step y) (?row y) s)" if "?I s" for y s by (rule keep_row [OF that])
    show "?P (fold (?step u) (?row u) s)" if "?I s" for s by (rule make_row [OF that])
    show "?P (fold (?step y) (?row y) s)" if "y \<in> set [0 ..< nc]" "?I s" "?P s" for y s
      using hold_row [of y s] that by simp
  qed
qed

subsection \<open>The second loop nest: the rows of the graph\<close>

lemma fill_entry_fold:
  fixes cellfaces face2cell flux work i
  defines "cond \<equiv> \<lambda>j. \<not> boundaryface face2cell (cellfaces ! j)
                          \<and> theflux face2cell flux i (cellfaces ! j) < 0"
  shows "\<exists>ja'. fold (fill_entry cellfaces face2cell flux work i) js (p, ja)
               = (p + length (filter cond js), ja')
             \<and> length ja' = length ja
             \<and> (p + length (filter cond js) \<le> length ja \<longrightarrow>
                  take (p + length (filter cond js)) ja'
                  = take p ja @ map (\<lambda>j. work ! (cellfaces ! j)) (filter cond js))"
proof (induction js arbitrary: p ja)
  case Nil
  show ?case by simp
next
  case (Cons j js)
  show ?case
  proof (cases "cond j")
    case False
    then have "fill_entry cellfaces face2cell flux work i j (p, ja) = (p, ja)"
      by (auto simp: fill_entry_def cond_def Let_def)
    with Cons.IH [of p ja] False show ?thesis by simp
  next
    case True
    let ?x = "work ! (cellfaces ! j)"
    from True have step: "fill_entry cellfaces face2cell flux work i j (p, ja)
                          = (p + 1, ja[p := ?x])"
      by (auto simp: fill_entry_def cond_def Let_def)
    from Cons.IH [of "p + 1" "ja[p := ?x]"] obtain ja' where
      ja': "fold (fill_entry cellfaces face2cell flux work i) js (p + 1, ja[p := ?x])
            = (p + 1 + length (filter cond js), ja')"
        "length ja' = length ja"
        "p + 1 + length (filter cond js) \<le> length ja \<longrightarrow>
           take (p + 1 + length (filter cond js)) ja'
           = take (p + 1) (ja[p := ?x]) @ map (\<lambda>j. work ! (cellfaces ! j)) (filter cond js)"
      by auto
    have "take (p + 1) (ja[p := ?x]) = take p ja @ [?x]" if "p < length ja"
      using that by (simp add: take_Suc_conv_app_nth)
    with ja' True step show ?thesis by auto
  qed
qed

lemma fill_row_result:
  "\<exists>ja'. fill_row cellfaces faceptr face2cell flux work i (p, ia, ja)
         = (p + length (row_entries cellfaces faceptr face2cell flux work i),
            ia[i + 1 := p + length (row_entries cellfaces faceptr face2cell flux work i)], ja')
       \<and> length ja' = length ja
       \<and> (p + length (row_entries cellfaces faceptr face2cell flux work i) \<le> length ja \<longrightarrow>
            take (p + length (row_entries cellfaces faceptr face2cell flux work i)) ja'
            = take p ja @ row_entries cellfaces faceptr face2cell flux work i)"
proof -
  from fill_entry_fold [of cellfaces face2cell flux work i
      "[faceptr ! i ..< faceptr ! (i + 1)]" p ja]
  show ?thesis
    by (auto simp: fill_row_def row_entries_def inflow_positions_def)
qed

lemma fill_rows_fold:
  fixes cellfaces faceptr face2cell flux work
  defines "E \<equiv> row_entries cellfaces faceptr face2cell flux work"
  defines "T \<equiv> \<lambda>n. length (concat (map E [0 ..< n]))"
  assumes "n < length ia"
  shows "\<exists>ia' ja'. fold (fill_row cellfaces faceptr face2cell flux work) [0 ..< n]
                      (0, ia[0 := 0], ja) = (T n, ia', ja')
           \<and> length ia' = length ia \<and> length ja' = length ja
           \<and> (\<forall>k \<le> n. ia' ! k = T k)
           \<and> (T n \<le> length ja \<longrightarrow> take (T n) ja' = concat (map E [0 ..< n]))"
  using assms(3)
proof (induction n)
  case 0
  then show ?case by (simp add: T_def)
next
  case (Suc n)
  then have "n < length ia" by simp
  from Suc.IH [OF this] obtain ia' ja' where
    IH: "fold (fill_row cellfaces faceptr face2cell flux work) [0 ..< n] (0, ia[0 := 0], ja)
         = (T n, ia', ja')"
      "length ia' = length ia" "length ja' = length ja" "\<forall>k \<le> n. ia' ! k = T k"
      "T n \<le> length ja \<longrightarrow> take (T n) ja' = concat (map E [0 ..< n])"
    by blast
  from fill_row_result [of cellfaces faceptr face2cell flux work n "T n" ia' ja']
  obtain ja'' where
    st: "fill_row cellfaces faceptr face2cell flux work n (T n, ia', ja')
         = (T n + length (E n), ia'[n + 1 := T n + length (E n)], ja'')"
      "length ja'' = length ja'"
      "T n + length (E n) \<le> length ja' \<longrightarrow>
         take (T n + length (E n)) ja'' = take (T n) ja' @ E n"
    unfolding E_def by blast
  have TS: "T (Suc n) = T n + length (E n)" by (simp add: T_def)
  have "\<forall>k \<le> Suc n. (ia'[n + 1 := T n + length (E n)]) ! k = T k"
    using IH(2,4) Suc.prems TS by (auto simp: nth_list_update le_Suc_eq)
  moreover have "take (T (Suc n)) ja'' = concat (map E [0 ..< Suc n])"
    if "T (Suc n) \<le> length ja"
    using that st(3) IH(3,5) TS by simp
  ultimately show ?case
    using IH(1,2,3) st(1,2) TS by simp
qed

lemma map_nth_slice:
  "b \<le> length xs \<Longrightarrow> map (\<lambda>k. xs ! k) [a ..< b] = take (b - a) (drop a xs)"
  by (simp add: list_eq_iff_nth_eq)

lemma upt_split: "i \<le> n \<Longrightarrow> [0 ..< n] = [0 ..< i] @ [i ..< n]"
  using upt_add_eq_append [of 0 i "n - i"] by simp

lemma concat_slice:
  assumes "i < n"
  shows "take (length (E i)) (drop (length (concat (map E [0 ..< i]))) (concat (map E [0 ..< n])))
         = E i"
proof -
  from assms have "[0 ..< n] = [0 ..< i] @ i # [Suc i ..< n]"
    using upt_split [of i n] by (simp add: upt_conv_Cons)
  then have "concat (map E [0 ..< n])
             = concat (map E [0 ..< i]) @ E i @ concat (map E [Suc i ..< n])"
    by simp
  then show ?thesis by simp
qed

lemma make_upwind_graph_rows:
  fixes cellfaces faceptr face2cell flux work nc
  defines "work' \<equiv> upwind_cells nc cellfaces faceptr face2cell flux work"
  defines "E \<equiv> row_entries cellfaces faceptr face2cell flux work'"
  assumes ia: "nc < length ia"
    and cap: "length (concat (map E [0 ..< nc])) \<le> length ja"
    and mk: "make_upwind_graph nc cellfaces faceptr face2cell flux ia ja work = (ia', ja', w)"
    and i: "i < nc"
  shows "csr_row ia' ja' i = E i"
proof -
  let ?T = "\<lambda>n. length (concat (map E [0 ..< n]))"
  from fill_rows_fold [OF ia, of cellfaces faceptr face2cell flux work' ja] mk
  have ia': "\<forall>k \<le> nc. ia' ! k = ?T k"
    and ja': "take (?T nc) ja' = concat (map E [0 ..< nc])"
    and len: "length ja' = length ja"
    using cap by (auto simp: make_upwind_graph_def Let_def work'_def E_def)
  from i have Ti: "?T (Suc i) = ?T i + length (E i)" by simp
  from i have "[0 ..< nc] = [0 ..< Suc i] @ [Suc i ..< nc]"
    using upt_split [of "Suc i" nc] by simp
  then have "?T nc = ?T (Suc i) + length (concat (map E [Suc i ..< nc]))"
    by (metis concat_append length_append map_append)
  then have le: "?T (Suc i) \<le> ?T nc" by simp
  have "csr_row ia' ja' i = map (\<lambda>k. ja' ! k) [?T i ..< ?T (Suc i)]"
    using ia' i by (simp add: csr_row_def)
  also have "\<dots> = map (\<lambda>k. take (?T nc) ja' ! k) [?T i ..< ?T (Suc i)]"
    using le by (intro map_cong) auto
  also have "\<dots> = take (?T (Suc i) - ?T i) (drop (?T i) (concat (map E [0 ..< nc])))"
    unfolding ja' using le by (intro map_nth_slice) simp
  also have "\<dots> = E i"
    using concat_slice [OF i, of E] Ti by simp
  finally show ?thesis .
qed

subsection \<open>The graph array is large enough\<close>

lemma inflow_face:
  assumes ok: "topology_ok nc nf cellfaces faceptr face2cell" and i: "i < nc"
    and j: "j \<in> set (inflow_positions cellfaces faceptr face2cell flux i)"
  shows "cellfaces ! j < nf"
    and "cellfaces ! j \<in> set (cell_face_list cellfaces faceptr i)"
    and "face2cell ! (2 * (cellfaces ! j)) = int i \<or> face2cell ! (2 * (cellfaces ! j) + 1) = int i"
    and "\<not> boundaryface face2cell (cellfaces ! j)"
    and "theflux face2cell flux i (cellfaces ! j) < 0"
proof -
  from j show m: "cellfaces ! j \<in> set (cell_face_list cellfaces faceptr i)"
    and "\<not> boundaryface face2cell (cellfaces ! j)"
    and "theflux face2cell flux i (cellfaces ! j) < 0"
    by (auto simp: inflow_positions_def cell_face_list_def)
  from ok i m show "cellfaces ! j < nf"
    and "face2cell ! (2 * (cellfaces ! j)) = int i \<or> face2cell ! (2 * (cellfaces ! j) + 1) = int i"
    by (auto simp: topology_ok_def)
qed

lemma inflow_faces_distinct:
  assumes ok: "topology_ok nc nf cellfaces faceptr face2cell" and n: "n \<le> nc"
  shows "distinct (concat (map (\<lambda>i. map (\<lambda>j. cellfaces ! j)
                                      (inflow_positions cellfaces faceptr face2cell flux i))
                            [0 ..< n]))"
  using n
proof (induction n)
  case 0
  show ?case by simp
next
  case (Suc n)
  let ?F = "\<lambda>i. map (\<lambda>j. cellfaces ! j) (inflow_positions cellfaces faceptr face2cell flux i)"
  from Suc have n: "n < nc" and IH: "distinct (concat (map ?F [0 ..< n]))" by simp_all
  from ok n have "distinct (cell_face_list cellfaces faceptr n)"
    by (simp add: topology_ok_def)
  then have d: "distinct (?F n)"
    unfolding inflow_positions_def cell_face_list_def by (rule distinct_map_filter)
  have "set (concat (map ?F [0 ..< n])) \<inter> set (?F n) = {}"
  proof (rule ccontr)
    assume "set (concat (map ?F [0 ..< n])) \<inter> set (?F n) \<noteq> {}"
    then obtain f where "f \<in> set (concat (map ?F [0 ..< n]))" and fn: "f \<in> set (?F n)"
      by blast
    then obtain i where i: "i < n" and fi: "f \<in> set (?F i)"
      by auto
    from fi obtain j where j: "j \<in> set (inflow_positions cellfaces faceptr face2cell flux i)"
      "f = cellfaces ! j" by auto
    from fn obtain k where k: "k \<in> set (inflow_positions cellfaces faceptr face2cell flux n)"
      "f = cellfaces ! k" by auto
    from i n have i': "i < nc" by simp
    note pi = inflow_face [OF ok i' j(1), folded j(2)]
    note pn = inflow_face [OF ok n k(1), folded k(2)]
    from ok pi(1) have "face2cell ! (2 * f) \<noteq> face2cell ! (2 * f + 1)"
      by (auto simp: topology_ok_def)
    from theflux_sides [OF this pi(3) pn(3), of flux] i pi(5) pn(5) show False by simp
  qed
  with IH d show ?case by simp
qed

lemma graph_capacity:
  assumes ok: "topology_ok nc nf cellfaces faceptr face2cell"
  shows "length (concat (map (row_entries cellfaces faceptr face2cell flux work) [0 ..< nc])) \<le> nf"
proof -
  let ?F = "\<lambda>i. map (\<lambda>j. cellfaces ! j) (inflow_positions cellfaces faceptr face2cell flux i)"
  let ?C = "concat (map ?F [0 ..< nc])"
  have "length (concat (map (row_entries cellfaces faceptr face2cell flux work) [0 ..< nc]))
        = length ?C"
    by (simp add: length_concat row_entries_def comp_def)
  also have "\<dots> = card (set ?C)"
    by (rule distinct_card [symmetric]) (rule inflow_faces_distinct [OF ok le_refl])
  also have "\<dots> \<le> card {..< nf}"
  proof (rule card_mono)
    show "set ?C \<subseteq> {..< nf}"
      using inflow_face(1) [OF ok] by auto
  qed simp
  finally show ?thesis by simp
qed

subsection \<open>The edges of the upwind graph\<close>

lemma upwind_row_members:
  assumes ok: "topology_ok nc nf cellfaces faceptr face2cell"
    and ia: "nc < length ia" and ja: "nf \<le> length ja" and wk: "nf \<le> length work"
    and mk: "make_upwind_graph nc cellfaces faceptr face2cell flux ia ja work = (ia', ja', w)"
    and i: "i < nc" and j: "j < nc"
  shows "i \<in> set (csr_row ia' ja' j) \<longleftrightarrow> (\<exists>f < nf. flows_across face2cell flux f i j)"
proof -
  let ?work = "upwind_cells nc cellfaces faceptr face2cell flux work"
  have cap: "length (concat (map (row_entries cellfaces faceptr face2cell flux ?work) [0 ..< nc]))
             \<le> length ja"
    using graph_capacity [OF ok, of flux ?work] ja by simp
  have row: "csr_row ia' ja' j = row_entries cellfaces faceptr face2cell flux ?work j"
    by (rule make_upwind_graph_rows [OF ia cap mk j])
  show ?thesis
  proof
    assume "i \<in> set (csr_row ia' ja' j)"
    then obtain k where k: "k \<in> set (inflow_positions cellfaces faceptr face2cell flux j)"
      and ik: "i = ?work ! (cellfaces ! k)"
      unfolding row row_entries_def by auto
    let ?f = "cellfaces ! k"
    note p = inflow_face [OF ok j k]
    from ok p(1) have sides: "face2cell ! (2 * ?f) \<noteq> face2cell ! (2 * ?f + 1)"
      and cells: "\<forall>c \<in> set [face2cell ! (2 * ?f), face2cell ! (2 * ?f + 1)].
                    c = - 1 \<or> (0 \<le> c \<and> nat c < nc
                               \<and> ?f \<in> set (cell_face_list cellfaces faceptr (nat c)))"
      by (auto simp: topology_ok_def)
    define c where "c = (if face2cell ! (2 * ?f) = int j then face2cell ! (2 * ?f + 1)
                         else face2cell ! (2 * ?f))"
    from p(4) have "c \<noteq> - 1" by (auto simp: c_def boundaryface_def)
    with cells have c: "0 \<le> c" "nat c < nc" "?f \<in> set (cell_face_list cellfaces faceptr (nat c))"
      by (auto simp: c_def)
    from sides p(3) c(1) have opp: "theflux face2cell flux (nat c) ?f = - theflux face2cell flux j ?f"
      by (auto simp: theflux_def c_def)
    with p(5) have "0 < theflux face2cell flux (nat c) ?f" by simp
    from upwind_cells_nth [OF ok c(2,3) this wk] ik have "i = nat c" by simp
    with c(1) have "int i = c" by simp
    with p(3,5) sides have "flows_across face2cell flux ?f i j"
      by (auto simp: flows_across_def c_def theflux_def split: if_splits)
    with p(1) show "\<exists>f < nf. flows_across face2cell flux f i j" by blast
  next
    assume "\<exists>f < nf. flows_across face2cell flux f i j"
    then obtain f where f: "f < nf" and fl: "flows_across face2cell flux f i j" by blast
    from ok f have sides: "face2cell ! (2 * f) \<noteq> face2cell ! (2 * f + 1)"
      and cells: "\<forall>c \<in> set [face2cell ! (2 * f), face2cell ! (2 * f + 1)].
                    c = - 1 \<or> (0 \<le> c \<and> nat c < nc
                               \<and> f \<in> set (cell_face_list cellfaces faceptr (nat c)))"
      by (auto simp: topology_ok_def)
    from fl cells have fi: "f \<in> set (cell_face_list cellfaces faceptr i)"
      and fj: "f \<in> set (cell_face_list cellfaces faceptr j)"
      by (auto simp: flows_across_def)
    from fl sides have nb: "\<not> boundaryface face2cell f"
      and neg: "theflux face2cell flux j f < 0" and pos: "0 < theflux face2cell flux i f"
      by (auto simp: flows_across_def boundaryface_def theflux_def)
    from fj obtain k where k: "k \<in> set [faceptr ! j ..< faceptr ! (j + 1)]" "cellfaces ! k = f"
      by (auto simp: cell_face_list_def)
    with nb neg have "k \<in> set (inflow_positions cellfaces faceptr face2cell flux j)"
      by (simp add: inflow_positions_def)
    moreover have "?work ! (cellfaces ! k) = i"
      using upwind_cells_nth [OF ok i fi pos wk] k(2) by simp
    ultimately show "i \<in> set (csr_row ia' ja' j)"
      unfolding row row_entries_def by force
  qed
qed

lemma boundary_flux_irrelevant:
  assumes same: "\<forall>f. \<not> boundaryface face2cell f \<longrightarrow> flux2 ! f = flux ! f"
  shows "\<exists>w2. make_upwind_graph nc cellfaces faceptr face2cell flux2 ia ja work
              = (fst (make_upwind_graph nc cellfaces faceptr face2cell flux ia ja work),
                 fst (snd (make_upwind_graph nc cellfaces faceptr face2cell flux ia ja work)),
                 w2)"
proof -
  define R where "R w1 w2 \<longleftrightarrow>
      length w1 = length w2 \<and> (\<forall>f. \<not> boundaryface face2cell f \<longrightarrow> w1 ! f = w2 ! f)"
    for w1 w2 :: "nat list"
  have fl: "theflux face2cell flux2 i f = theflux face2cell flux i f"
    if "\<not> boundaryface face2cell f" for i f
    using same that by (simp add: theflux_def)
  have upd: "R (w1[f := i]) (w2[f := i])" if "R w1 w2" for w1 w2 f i
  proof (cases "f < length w1")
    case True
    with that show ?thesis by (auto simp: R_def nth_list_update)
  next
    case False
    with that show ?thesis by (simp add: R_def list_update_beyond)
  qed
  have upd1: "R (w1[f := i]) w2" "R w1 (w2[f := i])"
    if "R w1 w2" "boundaryface face2cell f" for w1 w2 f i
  proof -
    have "(w[f := i]) ! fa = w ! fa" if "\<not> boundaryface face2cell fa" for w :: "nat list" and fa
      using that \<open>boundaryface face2cell f\<close> by (cases "f = fa") auto
    with that(1) show "R (w1[f := i]) w2" "R w1 (w2[f := i])"
      by (simp_all add: R_def)
  qed
  have step: "R (store_upwind cellfaces face2cell flux2 i j w1)
                (store_upwind cellfaces face2cell flux i j w2)"
    if "R w1 w2" for i j w1 w2
  proof (cases "boundaryface face2cell (cellfaces ! j)")
    case True
    from upd [OF that] upd1 [OF that True] that show ?thesis
      by (simp add: store_upwind_def Let_def)
  next
    case False
    from upd [OF that] that show ?thesis
      by (simp add: store_upwind_def Let_def fl [OF False])
  qed
  let ?w1 = "upwind_cells nc cellfaces faceptr face2cell flux2 work"
  let ?w2 = "upwind_cells nc cellfaces faceptr face2cell flux work"
  have "R ?w1 ?w2"
    unfolding upwind_cells_def
    by (rule fold_related [where R = R], simp add: R_def)
       (rule fold_related [where R = R], simp_all add: step)
  then have ent: "fill_entry cellfaces face2cell flux2 ?w1 i j
                  = fill_entry cellfaces face2cell flux ?w2 i j" for i j
    by (cases "boundaryface face2cell (cellfaces ! j)")
       (simp_all add: fill_entry_def fun_eq_iff Let_def fl R_def)
  have ent2: "fill_entry cellfaces face2cell flux2 ?w1 i
              = fill_entry cellfaces face2cell flux ?w2 i" for i
    by (rule ext) (rule ent)
  have "fill_row cellfaces faceptr face2cell flux2 ?w1
        = fill_row cellfaces faceptr face2cell flux ?w2"
    unfolding fill_row_def ent2 ..
  then show ?thesis
    by (simp add: make_upwind_graph_def Let_def split: prod.splits)
qed

text \<open>
  Claim C3. Let the adjacency arrays describe a well-formed grid and let the output and
  scratch arrays have the sizes that \<open>compute_sequence\<close> gives them (or more). In the
  graph that \<open>make_upwind_graph\<close> builds, for all cells \<open>i\<close> and \<open>j\<close>, the edge from \<open>i\<close>
  to \<open>j\<close> exists (cell \<open>i\<close> stands in the row of cell \<open>j\<close> as its upwind donor) if and
  only if some face joins \<open>i\<close> and \<open>j\<close> with its signed flux pointing from \<open>i\<close> into
  \<open>j\<close>. Such a face is interior; a boundary face joins no two cells, and the graph arrays
  \<open>ia\<close> and \<open>ja\<close> stay the same when the fluxes of the boundary faces are replaced by any
  other values.
\<close>

theorem upwind_graph_edges:
  assumes "topology_ok nc nf cellfaces faceptr face2cell"
    and "nc < length ia" and "nf \<le> length ja" and "nf \<le> length work"
    and "make_upwind_graph nc cellfaces faceptr face2cell flux ia ja work = (ia', ja', work')"
  shows "(\<forall>i < nc. \<forall>j < nc.
            upwind_edge ia' ja' i j \<longleftrightarrow> (\<exists>f < nf. flows_across face2cell flux f i j))
       \<and> (\<forall>f i j. boundaryface face2cell f \<longrightarrow> \<not> flows_across face2cell flux f i j)
       \<and> (\<forall>flux2. (\<forall>f. \<not> boundaryface face2cell f \<longrightarrow> flux2 ! f = flux ! f) \<longrightarrow>
            (\<exists>w2. make_upwind_graph nc cellfaces faceptr face2cell flux2 ia ja work
                   = (ia', ja', w2)))"
proof (intro conjI allI impI)
  fix i j assume "i < nc" "j < nc"
  then show "upwind_edge ia' ja' i j \<longleftrightarrow> (\<exists>f < nf. flows_across face2cell flux f i j)"
    unfolding upwind_edge_def by (rule upwind_row_members [OF assms])
next
  fix f i j assume "boundaryface face2cell f"
  then show "\<not> flows_across face2cell flux f i j"
    by (auto simp: boundaryface_def flows_across_def)
next
  fix flux2 assume "\<forall>f. \<not> boundaryface face2cell f \<longrightarrow> flux2 ! f = flux ! f"
  from boundary_flux_irrelevant [OF this, of nc cellfaces faceptr ia ja work] assms(5)
  show "\<exists>w2. make_upwind_graph nc cellfaces faceptr face2cell flux2 ia ja work = (ia', ja', w2)"
    by simp
qed

lemma chain3_topology:
  "topology_ok 3 3 [0, 0, 1, 1, 2] [0, 1, 3, 5] [0, 1, 1, 2, 2, - 1]"
  by code_simp

lemma chain3_graph:
  "make_upwind_graph 3 [0, 0, 1, 1, 2] [0, 1, 3, 5] [0, 1, 1, 2, 2, - 1] [1, 1, 1]
     [0, 0, 0, 0] [0, 0, 0] [0, 0, 0, 0, 0, 0, 0, 0, 0]
   = ([0, 0, 1, 2], [0, 1, 0], [0, 1, 2, 0, 0, 0, 0, 0, 0])"
  by (simp add: make_upwind_graph_def upwind_cells_def store_upwind_def theflux_def
      fill_row_def fill_entry_def boundaryface_def upt_eval eval_nat_numeral)

theorem upwind_graph_edges_witness:
  "topology_ok 3 3 [0, 0, 1, 1, 2] [0, 1, 3, 5] [0, 1, 1, 2, 2, - 1]
   \<and> make_upwind_graph 3 [0, 0, 1, 1, 2] [0, 1, 3, 5] [0, 1, 1, 2, 2, - 1] [1, 1, 1]
        [0, 0, 0, 0] [0, 0, 0] [0, 0, 0, 0, 0, 0, 0, 0, 0]
      = ([0, 0, 1, 2], [0, 1, 0], [0, 1, 2, 0, 0, 0, 0, 0, 0])
   \<and> upwind_edge [0, 0, 1, 2] [0, 1, 0] 0 1
   \<and> flows_across [0, 1, 1, 2, 2, - 1] [1, 1, 1] 0 0 1
   \<and> \<not> upwind_edge [0, 0, 1, 2] [0, 1, 0] 1 0
   \<and> boundaryface [0, 1, 1, 2, 2, - 1] 2
   \<and> (\<exists>w2. make_upwind_graph 3 [0, 0, 1, 1, 2] [0, 1, 3, 5] [0, 1, 1, 2, 2, - 1] [1, 1, - 5]
              [0, 0, 0, 0] [0, 0, 0] [0, 0, 0, 0, 0, 0, 0, 0, 0]
            = ([0, 0, 1, 2], [0, 1, 0], w2))"
proof -
  have same: "\<forall>f. \<not> boundaryface [0, 1, 1, 2, 2, - 1] f \<longrightarrow> [1, 1, - 5 :: real] ! f = [1, 1, 1] ! f"
  proof (intro allI impI)
    fix f :: nat assume nb: "\<not> boundaryface [0, 1, 1, 2, 2, - 1] f"
    have "f = 0 \<or> f = 1 \<or> f = 2 \<or> 3 \<le> f" by arith
    then show "[1, 1, - 5 :: real] ! f = [1, 1, 1] ! f"
    proof (elim disjE)
      assume "f = 2"
      with nb show ?thesis by (simp add: boundaryface_def)
    next
      assume "3 \<le> f"
      then obtain k where "f = 3 + k" using le_Suc_ex by blast
      then show ?thesis by (simp add: eval_nat_numeral)
    qed simp_all
  qed
  have e: "upwind_edge [0, 0, 1, 2] [0, 1, 0] 0 1" "\<not> upwind_edge [0, 0, 1, 2] [0, 1, 0] 1 0"
    by (simp_all add: upwind_edge_def csr_row_def upt_eval)
  have fa: "flows_across [0, 1, 1, 2, 2, - 1] [1, 1, 1] 0 0 1"
    by (simp add: flows_across_def)
  have b: "boundaryface [0, 1, 1, 2, 2, - 1] 2"
    by (simp add: boundaryface_def eval_nat_numeral)
  from upwind_graph_edges [OF chain3_topology _ _ _ chain3_graph] same e fa b
    chain3_topology chain3_graph
  show ?thesis by simp
qed

subsection \<open>Steps of the traversal\<close>

lemma keeps_visited_refl: "keeps_visited s s"
  by (simp add: keeps_visited_def)

lemma keeps_visited_trans:
  assumes 1: "keeps_visited s s'" and 2: "keeps_visited s' s''"
  shows "keeps_visited s s''"
proof -
  from 1 2 obtain T T' where "vstack s' = T @ vstack s" "vstack s'' = T' @ vstack s'"
    by (auto simp: keeps_visited_def)
  then have "vstack s'' = (T' @ T) @ vstack s" by simp
  then have st: "\<exists>T. vstack s'' = T @ vstack s" by blast
  have cl: "clock s \<le> clock s''"
    using 1 2 by (simp add: keeps_visited_def)
  have "vstatus s'' x = vstatus s x \<and> discovery s'' x = discovery s x
        \<and> lowlink s'' x = lowlink s x" if "vstatus s x \<noteq> REMAINING" for x
  proof -
    from 1 that have a: "vstatus s' x = vstatus s x" "discovery s' x = discovery s x"
      "lowlink s' x = lowlink s x" by (simp_all add: keeps_visited_def)
    with that have "vstatus s' x \<noteq> REMAINING" by simp
    with 2 have "vstatus s'' x = vstatus s' x" "discovery s'' x = discovery s' x"
      "lowlink s'' x = lowlink s' x" by (simp_all add: keeps_visited_def)
    with a show ?thesis by simp
  qed
  with st cl show ?thesis by (simp add: keeps_visited_def)
qed

lemma pop_component_split:
  "v \<notin> set T \<Longrightarrow> pop_component v acc (T @ v # S) = (acc @ T @ [v], S)"
  by (induction T arbitrary: acc) auto

lemma sorted_wrt_less_last:
  "sorted_wrt (<) (bs :: nat list) \<Longrightarrow> x \<in> set bs \<Longrightarrow> x \<le> last bs"
proof (induction bs)
  case Nil
  then show ?case by simp
next
  case (Cons a bs)
  show ?case
  proof (cases "bs = []")
    case True
    with Cons.prems show ?thesis by simp
  next
    case False
    then have "last bs \<in> set bs" by simp
    with Cons.prems have a: "a < last bs" by auto
    show ?thesis
    proof (cases "x = a")
      case True
      with a False show ?thesis by simp
    next
      case False
      with Cons.prems have "x \<in> set bs" "sorted_wrt (<) bs" by auto
      with Cons.IH \<open>bs \<noteq> []\<close> show ?thesis by simp
    qed
  qed
qed

lemma boundaries_ok_extend:
  assumes "boundaries_ok bs n" and "0 < m"
  shows "boundaries_ok (bs @ [n + m]) (n + m)"
proof -
  from assms(1) have b: "sorted_wrt (<) bs" "last bs = n" "bs \<noteq> []" "hd bs = 0"
    by (simp_all add: boundaries_ok_def)
  have "\<forall>x \<in> set bs. x < n + m"
    using sorted_wrt_less_last [OF b(1)] b(2) assms(2) by fastforce
  with b show ?thesis
    by (simp add: boundaries_ok_def sorted_wrt_append)
qed

lemma tarjan_inv_stack:
  "tarjan_inv nv s \<Longrightarrow> distinct (vstack s)"
  "tarjan_inv nv s \<Longrightarrow> x \<in> set (vstack s) \<longleftrightarrow> vstatus s x = ACTIVE"
  "tarjan_inv nv s \<Longrightarrow> distinct (emitted s)"
  "tarjan_inv nv s \<Longrightarrow> x \<in> set (emitted s) \<longleftrightarrow> vstatus s x = DONE"
  "tarjan_inv nv s \<Longrightarrow> vstatus s x \<noteq> REMAINING \<Longrightarrow> x < nv"
  "tarjan_inv nv s \<Longrightarrow> vstatus s x \<noteq> REMAINING \<Longrightarrow> lowlink s x \<le> discovery s x"
  "tarjan_inv nv s \<Longrightarrow> boundaries_ok (boundaries s) (length (emitted s))"
  by (auto simp: tarjan_inv_def)

lemma discover_explore_inv:
  assumes inv: "tarjan_inv nv s" and v: "v < nv" "vstatus s v = REMAINING"
  shows "explore_inv nv v s (discover v s)"
proof -
  let ?s = "discover v s"
  have sel: "vstack ?s = v # vstack s" "emitted ?s = emitted s" "boundaries ?s = boundaries s"
    "vstatus ?s = (vstatus s)(v := ACTIVE)" "discovery ?s = (discovery s)(v := clock s)"
    "lowlink ?s = (lowlink s)(v := clock s)" "clock ?s = clock s + 1"
    by (simp_all add: discover_def)
  have fr: "keeps_visited s ?s"
    using v by (auto simp: keeps_visited_def sel)
  have nin: "v \<notin> set (vstack s)" "v \<notin> set (emitted s)"
    using tarjan_inv_stack(2,4) [OF inv, of v] v by simp_all
  have "tarjan_inv nv ?s"
    unfolding tarjan_inv_def sel
  proof (intro conjI allI impI)
    show "distinct (v # vstack s)" using nin tarjan_inv_stack(1) [OF inv] by simp
    show "distinct (emitted s)" by (rule tarjan_inv_stack(3) [OF inv])
    show "set (v # vstack s) = {x. ((vstatus s)(v := ACTIVE)) x = ACTIVE}"
      using tarjan_inv_stack(2) [OF inv] by auto
    show "set (emitted s) = {x. ((vstatus s)(v := ACTIVE)) x = DONE}"
      using tarjan_inv_stack(4) [OF inv] v by auto
    show "boundaries_ok (boundaries s) (length (emitted s))"
      by (rule tarjan_inv_stack(7) [OF inv])
  next
    fix x assume "((vstatus s)(v := ACTIVE)) x \<noteq> REMAINING"
    then show "x < nv"
      using tarjan_inv_stack(5) [OF inv, of x] v by (cases "x = v") simp_all
  next
    fix x assume "((vstatus s)(v := ACTIVE)) x \<noteq> REMAINING"
    then show "((lowlink s)(v := clock s)) x \<le> ((discovery s)(v := clock s)) x"
      using tarjan_inv_stack(6) [OF inv, of x] by (cases "x = v") simp_all
  qed
  moreover have "b \<le> lowlink ?s v \<and> stack_above b ?s" if "stack_above b s" for b
    using that by (auto simp: stack_above_def sel)
  moreover have "\<exists>T. vstack ?s = T @ v # vstack s" by (simp add: sel)
  ultimately show ?thesis
    using fr v inv by (simp add: explore_inv_def sel)
qed

lemma lower_lowlink_explore_inv:
  assumes E: "explore_inv nv v s0 s"
    and l: "\<And>b. stack_above b s0 \<Longrightarrow> b \<le> l"
  shows "explore_inv nv v s0 (s\<lparr>lowlink := (lowlink s)(v := min (lowlink s v) l)\<rparr>)"
proof -
  let ?s = "s\<lparr>lowlink := (lowlink s)(v := min (lowlink s v) l)\<rparr>"
  from E have inv: "tarjan_inv nv s" and fr: "keeps_visited s0 s"
    and act: "vstatus s v = ACTIVE" and new: "vstatus s0 v = REMAINING"
    and low: "\<And>b. stack_above b s0 \<Longrightarrow> b \<le> lowlink s v \<and> stack_above b s"
    by (simp_all add: explore_inv_def)
  have "lowlink ?s x \<le> discovery ?s x" if "vstatus s x \<noteq> REMAINING" for x
    using tarjan_inv_stack(6) [OF inv that] by (cases "x = v") simp_all
  with inv have "tarjan_inv nv ?s"
    by (simp add: tarjan_inv_def)
  moreover have "keeps_visited s0 ?s"
    using fr new by (auto simp: keeps_visited_def)
  moreover have "b \<le> lowlink ?s v \<and> stack_above b ?s" if "stack_above b s0" for b
    using low [OF that] l [OF that] by (simp add: stack_above_def)
  ultimately show ?thesis
    using E by (simp add: explore_inv_def)
qed

lemma finish_dfs_post:
  assumes E: "explore_inv nv v s0 s"
  shows "dfs_post nv v s0 (finish v s)"
proof -
  from E have inv0: "tarjan_inv nv s0" and inv: "tarjan_inv nv s" and fr: "keeps_visited s0 s"
    and act: "vstatus s v = ACTIVE" and new: "vstatus s0 v = REMAINING"
    and dv: "discovery s v = clock s0"
    and low: "\<And>b. stack_above b s0 \<Longrightarrow> b \<le> lowlink s v \<and> stack_above b s"
    by (simp_all add: explore_inv_def)
  from E obtain T where T: "vstack s = T @ v # vstack s0"
    by (auto simp: explore_inv_def)
  show ?thesis
  proof (cases "lowlink s v = discovery s v")
    case False
    then have fin: "finish v s = s" by (simp add: finish_def)
    have "vstack s0 \<noteq> []"
    proof
      assume "vstack s0 = []"
      then have "stack_above (clock s0) s0" by (simp add: stack_above_def)
      from low [OF this] have "clock s0 \<le> lowlink s v" by simp
      moreover have "lowlink s v \<le> discovery s v"
        using tarjan_inv_stack(6) [OF inv, of v] act by simp
      ultimately show False using False dv by simp
    qed
    with inv fr act low show ?thesis
      unfolding fin by (simp add: dfs_post_def)
  next
    case True
    from inv T have d: "distinct (T @ v # vstack s0)"
      using tarjan_inv_stack(1) [OF inv] by simp
    then have vT: "v \<notin> set T" by auto
    define c where "c = T @ [v]"
    define s' where "s' = s\<lparr>vstack := vstack s0,
               vstatus := (\<lambda>x. if x \<in> set c then DONE else vstatus s x),
               emitted := emitted s @ c,
               boundaries := boundaries s @ [length (emitted s @ c)]\<rparr>"
    have fin: "finish v s = s'"
      using True T pop_component_split [OF vT, of "[]" "vstack s0"]
      by (simp add: finish_def s'_def c_def)
    have sel: "vstack s' = vstack s0" "emitted s' = emitted s @ c"
      "vstatus s' = (\<lambda>x. if x \<in> set c then DONE else vstatus s x)"
      "boundaries s' = boundaries s @ [length (emitted s) + length c]"
      "lowlink s' = lowlink s" "discovery s' = discovery s" "clock s' = clock s"
      by (simp_all add: s'_def)
    have c_stack: "set (vstack s) = set c \<union> set (vstack s0)"
      "set c \<inter> set (vstack s0) = {}" "distinct c" "c \<noteq> []" "v \<in> set c"
      using d T by (auto simp: c_def)
    have c_act: "vstatus s x = ACTIVE" if "x \<in> set c" for x
      using that c_stack(1) tarjan_inv_stack(2) [OF inv, of x] by simp
    have c_new: "vstatus s0 x = REMAINING" if "x \<in> set c" for x
    proof (rule ccontr)
      assume n: "vstatus s0 x \<noteq> REMAINING"
      with fr have "vstatus s x = vstatus s0 x" by (simp add: keeps_visited_def)
      with c_act [OF that] have "vstatus s0 x = ACTIVE" by simp
      then have "x \<in> set (vstack s0)" using tarjan_inv_stack(2) [OF inv0, of x] by simp
      with that c_stack(2) show False by auto
    qed
    have "tarjan_inv nv s'"
      unfolding tarjan_inv_def sel
    proof (intro conjI allI impI)
      show "distinct (vstack s0)" using d by simp
      show "distinct (emitted s @ c)"
        using tarjan_inv_stack(3) [OF inv] c_stack(3) c_act tarjan_inv_stack(4) [OF inv]
        by auto
      show "set (vstack s0) = {x. (if x \<in> set c then DONE else vstatus s x) = ACTIVE}"
        using c_stack(1,2) tarjan_inv_stack(2) [OF inv] by auto
      show "set (emitted s @ c) = {x. (if x \<in> set c then DONE else vstatus s x) = DONE}"
        using tarjan_inv_stack(4) [OF inv] by auto
      show "boundaries_ok (boundaries s @ [length (emitted s) + length c])
              (length (emitted s @ c))"
        using boundaries_ok_extend [OF tarjan_inv_stack(7) [OF inv], of "length c"] c_stack(4)
        by simp
    next
      fix x assume "(if x \<in> set c then DONE else vstatus s x) \<noteq> REMAINING"
      then have "vstatus s x \<noteq> REMAINING" using c_act [of x] by (auto split: if_splits)
      then show "x < nv" "lowlink s x \<le> discovery s x"
        using tarjan_inv_stack(5,6) [OF inv, of x] by simp_all
    qed
    moreover have "keeps_visited s0 s'"
      unfolding keeps_visited_def sel
    proof (intro conjI allI impI)
      fix x assume n: "vstatus s0 x \<noteq> REMAINING"
      then have "x \<notin> set c" using c_new by auto
      with fr n show "(if x \<in> set c then DONE else vstatus s x) = vstatus s0 x"
        "discovery s x = discovery s0 x" "lowlink s x = lowlink s0 x"
        by (simp_all add: keeps_visited_def)
    next
      show "clock s0 \<le> clock s" using fr by (simp add: keeps_visited_def)
      show "\<exists>T. vstack s0 = T @ vstack s0" by simp
    qed
    moreover have "vstatus s' v \<noteq> REMAINING" using c_stack(5) by (simp add: sel)
    moreover have "b \<le> lowlink s' v \<and> stack_above b s'" if "stack_above b s0" for b
      using low [OF that] c_stack(1) by (auto simp: stack_above_def sel)
    ultimately show ?thesis
      unfolding fin by (simp add: dfs_post_def sel)
  qed
qed

subsection \<open>The traversal returns and keeps the invariants\<close>

lemma finite_unvisited [simp]: "finite (unvisited nv s)"
  by (simp add: unvisited_def)

lemma unvisited_mono:
  assumes "keeps_visited s s'"
  shows "card (unvisited nv s') \<le> card (unvisited nv s)"
proof (rule card_mono)
  show "unvisited nv s' \<subseteq> unvisited nv s"
    using assms by (auto simp: unvisited_def keeps_visited_def)
qed simp

lemma explore_inv_after_visit:
  assumes E: "explore_inv nv v s0 s" and P: "dfs_post nv w s s'"
  shows "explore_inv nv v s0 s'"
    and "\<And>b. stack_above b s0 \<Longrightarrow> b \<le> lowlink s' w"
proof -
  from E have inv0: "tarjan_inv nv s0" and fr: "keeps_visited s0 s"
    and act: "vstatus s v = ACTIVE" and new: "vstatus s0 v = REMAINING"
    and dv: "discovery s v = clock s0" and cl: "clock s0 < clock s"
    and low: "\<And>b. stack_above b s0 \<Longrightarrow> b \<le> lowlink s v \<and> stack_above b s"
    by (simp_all add: explore_inv_def)
  from E obtain T where T: "vstack s = T @ v # vstack s0"
    by (auto simp: explore_inv_def)
  from P have inv': "tarjan_inv nv s'" and fr': "keeps_visited s s'"
    and low': "\<And>b. stack_above b s \<Longrightarrow> b \<le> lowlink s' w \<and> stack_above b s'"
    by (simp_all add: dfs_post_def)
  from fr' act have v': "vstatus s' v = ACTIVE" "discovery s' v = discovery s v"
    "lowlink s' v = lowlink s v" and cl': "clock s \<le> clock s'"
    by (simp_all add: keeps_visited_def)
  from fr' obtain T' where "vstack s' = T' @ vstack s" by (auto simp: keeps_visited_def)
  with T have "vstack s' = (T' @ T) @ v # vstack s0" by simp
  then have st: "\<exists>T. vstack s' = T @ v # vstack s0" by blast
  show w: "b \<le> lowlink s' w" if "stack_above b s0" for b
    using low' low [OF that] by simp
  have "b \<le> lowlink s' v \<and> stack_above b s'" if "stack_above b s0" for b
    using low' low [OF that] v'(3) by simp
  with inv0 inv' keeps_visited_trans [OF fr fr'] v' new st dv cl cl'
  show "explore_inv nv v s0 s'"
    by (simp add: explore_inv_def)
qed

lemma explore_ok:
  assumes visit: "\<And>w s. tarjan_inv nv s \<Longrightarrow> w < nv \<Longrightarrow> vstatus s w = REMAINING \<Longrightarrow>
                    card (unvisited nv s) \<le> n \<Longrightarrow>
                    \<exists>s'. visit w s = Some s' \<and> dfs_post nv w s s'"
    and ws: "\<forall>w \<in> set ws. w < nv"
    and E: "explore_inv nv v s0 s"
    and fuel: "card (unvisited nv s) \<le> n"
  shows "\<exists>s'. explore visit v ws s = Some s' \<and> explore_inv nv v s0 s'"
  using ws E fuel
proof (induction ws arbitrary: s)
  case Nil
  then show ?case by simp
next
  case (Cons w ws)
  from Cons.prems have w: "w < nv" and ws: "\<forall>w \<in> set ws. w < nv"
    and E: "explore_inv nv v s0 s" and fuel: "card (unvisited nv s) \<le> n"
    by simp_all
  from E have inv: "tarjan_inv nv s"
    and low: "\<And>b. stack_above b s0 \<Longrightarrow> b \<le> lowlink s v \<and> stack_above b s"
    by (simp_all add: explore_inv_def)
  show ?case
  proof (cases "vstatus s w")
    case REMAINING
    from visit [OF inv w REMAINING fuel] obtain s' where
      s': "visit w s = Some s'" "dfs_post nv w s s'" by blast
    let ?s = "s'\<lparr>lowlink := (lowlink s')(v := min (lowlink s' v) (lowlink s' w))\<rparr>"
    from explore_inv_after_visit [OF E s'(2)]
    have E': "explore_inv nv v s0 ?s"
      by (intro lower_lowlink_explore_inv)
    from s'(2) have "keeps_visited s s'" by (simp add: dfs_post_def)
    from unvisited_mono [OF this, of nv] fuel
    have "card (unvisited nv ?s) \<le> n" by (simp add: unvisited_def)
    from Cons.IH [OF ws E' this] REMAINING s'(1) show ?thesis by simp
  next
    case ACTIVE
    let ?s = "s\<lparr>lowlink := (lowlink s)(v := min (lowlink s v) (discovery s w))\<rparr>"
    have "b \<le> discovery s w" if "stack_above b s0" for b
    proof -
      from ACTIVE have "w \<in> set (vstack s)" using tarjan_inv_stack(2) [OF inv, of w] by simp
      with low [OF that] show ?thesis by (simp add: stack_above_def)
    qed
    then have E': "explore_inv nv v s0 ?s"
      by (intro lower_lowlink_explore_inv [OF E])
    from fuel have "card (unvisited nv ?s) \<le> n" by (simp add: unvisited_def)
    from Cons.IH [OF ws E' this] ACTIVE show ?thesis by simp
  next
    case DONE
    from Cons.IH [OF ws E fuel] DONE show ?thesis by simp
  qed
qed

lemma dfs_ok:
  assumes g: "graph_ok nv ia ja"
  shows "tarjan_inv nv s \<Longrightarrow> v < nv \<Longrightarrow> vstatus s v = REMAINING \<Longrightarrow>
         card (unvisited nv s) \<le> n \<Longrightarrow>
         \<exists>s'. dfs n ia ja v s = Some s' \<and> dfs_post nv v s s'"
proof (induction n arbitrary: v s)
  case 0
  then have "v \<in> unvisited nv s" by (simp add: unvisited_def)
  then have "unvisited nv s \<noteq> {}" by blast
  with 0 show ?case by simp
next
  case (Suc n)
  have E: "explore_inv nv v s (discover v s)"
    by (rule discover_explore_inv [OF Suc.prems(1,2,3)])
  have "unvisited nv (discover v s) = unvisited nv s - {v}"
    by (auto simp: unvisited_def discover_def)
  moreover have "v \<in> unvisited nv s" using Suc.prems by (simp add: unvisited_def)
  ultimately have fuel: "card (unvisited nv (discover v s)) \<le> n"
    using Suc.prems(4) by simp
  from g Suc.prems(2) have ws: "\<forall>w \<in> set (csr_row ia ja v). w < nv"
    by (simp add: graph_ok_def)
  from explore_ok [of nv n "dfs n ia ja", OF Suc.IH ws E fuel]
  obtain s' where s': "explore (dfs n ia ja) v (csr_row ia ja v) (discover v s) = Some s'"
    "explore_inv nv v s s'" by blast
  from finish_dfs_post [OF s'(2)] s'(1) show ?case by simp
qed

lemma tarjan_init_inv: "tarjan_inv nv tarjan_init"
  by (simp add: tarjan_inv_def tarjan_init_def boundaries_ok_def)

lemma tarjan_seeds:
  assumes g: "graph_ok nv ia ja"
  shows "k \<le> nv \<Longrightarrow>
         \<exists>s. fold (tarjan_seed nv ia ja) [0 ..< k] (Some tarjan_init) = Some s
             \<and> tarjan_inv nv s \<and> vstack s = [] \<and> (\<forall>x < k. vstatus s x \<noteq> REMAINING)"
proof (induction k)
  case 0
  show ?case by (simp add: tarjan_init_inv) (simp add: tarjan_init_def)
next
  case (Suc k)
  then obtain s where s: "fold (tarjan_seed nv ia ja) [0 ..< k] (Some tarjan_init) = Some s"
    "tarjan_inv nv s" "vstack s = []" "\<forall>x < k. vstatus s x \<noteq> REMAINING"
    by auto
  have step: "fold (tarjan_seed nv ia ja) [0 ..< Suc k] (Some tarjan_init)
              = tarjan_seed nv ia ja k (Some s)"
    using s(1) by simp
  show ?case
  proof (cases "vstatus s k = REMAINING")
    case False
    then have "tarjan_seed nv ia ja k (Some s) = Some s" by (simp add: tarjan_seed_def)
    with s False show ?thesis unfolding step by (auto simp: less_Suc_eq)
  next
    case True
    have "unvisited nv s \<subseteq> {..< nv}" by (auto simp: unvisited_def)
    then have "card (unvisited nv s) \<le> card {..< nv}" by (intro card_mono) simp_all
    then have fuel: "card (unvisited nv s) \<le> nv" by simp
    from Suc.prems have k: "k < nv" by simp
    from dfs_ok [OF g s(2) k True fuel] obtain s' where
      s': "dfs nv ia ja k s = Some s'" "dfs_post nv k s s'" by blast
    from s'(2) s(3) have "tarjan_inv nv s'" "vstack s' = []" "vstatus s' k \<noteq> REMAINING"
      and fr: "keeps_visited s s'"
      by (simp_all add: dfs_post_def)
    moreover have "vstatus s' x \<noteq> REMAINING" if "x < k" for x
      using fr s(4) that by (simp add: keeps_visited_def)
    moreover have "tarjan_seed nv ia ja k (Some s) = Some s'"
      using True s'(1) by (simp add: tarjan_seed_def)
    ultimately show ?thesis
      unfolding step by (auto simp: less_Suc_eq)
  qed
qed

lemma tarjan_ok:
  assumes g: "graph_ok nv ia ja"
  shows "\<exists>sq bs. tarjan nv ia ja = Some (sq, bs, length bs - 1)
           \<and> distinct sq \<and> set sq = {..< nv} \<and> boundaries_ok bs (length sq)"
proof -
  from tarjan_seeds [OF g le_refl] obtain s where
    s: "fold (tarjan_seed nv ia ja) [0 ..< nv] (Some tarjan_init) = Some s"
    "tarjan_inv nv s" "vstack s = []" "\<forall>x < nv. vstatus s x \<noteq> REMAINING"
    by blast
  have "vstatus s x = DONE \<longleftrightarrow> x < nv" for x
  proof
    assume "vstatus s x = DONE"
    then show "x < nv" using tarjan_inv_stack(5) [OF s(2), of x] by simp
  next
    assume "x < nv"
    with s(4) have "vstatus s x \<noteq> REMAINING" by simp
    moreover have "vstatus s x \<noteq> ACTIVE"
      using tarjan_inv_stack(2) [OF s(2), of x] s(3) by auto
    ultimately show "vstatus s x = DONE" by (cases "vstatus s x") simp_all
  qed
  then have "set (emitted s) = {..< nv}"
    using tarjan_inv_stack(4) [OF s(2)] by auto
  with s(1) tarjan_inv_stack(3,7) [OF s(2)] show ?thesis
    by (simp add: tarjan_def)
qed

subsection \<open>Boundaries cut the sequence into components\<close>

lemma strictly_increasing_nth:
  "sorted_wrt (<) (bs :: nat list) \<Longrightarrow> i < length bs \<Longrightarrow> i \<le> bs ! i"
proof (induction i)
  case 0
  show ?case by simp
next
  case (Suc i)
  then have "i \<le> bs ! i" by simp
  moreover have "bs ! i < bs ! Suc i"
    using sorted_wrt_nth_less [OF Suc.prems(1), of i "Suc i"] Suc.prems(2) by simp
  ultimately show ?case by simp
qed

lemma boundaries_count:
  assumes "boundaries_ok bs n"
  shows "length bs - 1 \<le> n" and "0 < n \<Longrightarrow> 1 \<le> length bs - 1"
    and "bs ! 0 = 0" and "bs ! (length bs - 1) = n"
proof -
  from assms have b: "bs \<noteq> []" "hd bs = 0" "last bs = n" "sorted_wrt (<) bs"
    by (simp_all add: boundaries_ok_def)
  from b(1) have l: "length bs - 1 < length bs" by (cases bs) simp_all
  from b(1,3) show n: "bs ! (length bs - 1) = n" by (simp add: last_conv_nth)
  from strictly_increasing_nth [OF b(4) l] n show "length bs - 1 \<le> n" by simp
  from b(1,2) show z: "bs ! 0 = 0" by (simp add: hd_conv_nth)
  show "1 \<le> length bs - 1" if "0 < n"
  proof (rule ccontr)
    assume "\<not> 1 \<le> length bs - 1"
    then have "length bs - 1 = 0" by simp
    with n z that show False by simp
  qed
qed

lemma boundaries_interval:
  assumes ok: "boundaries_ok bs n" and p: "p < n"
  shows "\<exists>!k. k < length bs - 1 \<and> bs ! k \<le> p \<and> p < bs ! (k + 1)"
proof -
  from ok have srt: "sorted_wrt (<) bs" by (simp add: boundaries_ok_def)
  note cnt = boundaries_count [OF ok]
  from p have n: "0 < n" by simp
  let ?Q = "\<lambda>k. k < length bs - 1 \<and> p < bs ! (k + 1)"
  define m where "m = length bs - 1"
  have m: "1 \<le> m" "bs ! m = n" using cnt(2) [OF n] cnt(4) by (simp_all add: m_def)
  then have "m - 1 < m" "m - 1 + 1 = m" by simp_all
  with m(2) p have "?Q (m - 1)" by (simp add: m_def)
  then have L: "?Q (LEAST k. ?Q k)" by (rule LeastI)
  define k where "k = (LEAST k. ?Q k)"
  have least: "\<not> ?Q j" if "j < k" for j
    using that not_less_Least unfolding k_def by blast
  have "bs ! k \<le> p"
  proof (cases k)
    case 0
    with cnt(3) show ?thesis by simp
  next
    case (Suc j)
    with least [of j] L have "\<not> p < bs ! (j + 1)" by (simp add: k_def)
    with Suc show ?thesis by simp
  qed
  with L have ex: "k < length bs - 1 \<and> bs ! k \<le> p \<and> p < bs ! (k + 1)"
    by (simp add: k_def)
  have uniq: "a = b" if a: "a < length bs - 1 \<and> bs ! a \<le> p \<and> p < bs ! (a + 1)"
    and b: "b < length bs - 1 \<and> bs ! b \<le> p \<and> p < bs ! (b + 1)" for a b
  proof -
    have no: False if "x < y" and x: "x < length bs - 1 \<and> bs ! x \<le> p \<and> p < bs ! (x + 1)"
      and y: "y < length bs - 1 \<and> bs ! y \<le> p \<and> p < bs ! (y + 1)" for x y
    proof -
      have "bs ! (x + 1) \<le> bs ! y"
      proof (cases "x + 1 = y")
        case True
        then show ?thesis by simp
      next
        case False
        with \<open>x < y\<close> y have "x + 1 < y" "y < length bs" by auto
        from sorted_wrt_nth_less [OF srt this] show ?thesis by simp
      qed
      with x y show False by simp
    qed
    from no [of a b] no [of b a] a b show ?thesis by (cases a b rule: linorder_cases) auto
  qed
  from ex uniq show ?thesis by blast
qed

lemma component_partition:
  assumes d: "distinct sq" and ok: "boundaries_ok bs (length sq)" and c: "c \<in> set sq"
  shows "\<exists>!k. k < length bs - 1 \<and> c \<in> set (component_cells sq bs k)"
proof -
  from ok have srt: "sorted_wrt (<) bs" by (simp add: boundaries_ok_def)
  note cnt = boundaries_count [OF ok]
  from c obtain p where p: "p < length sq" "sq ! p = c" by (auto simp: in_set_conv_nth)
  have mem: "c \<in> set (component_cells sq bs k) \<longleftrightarrow> bs ! k \<le> p \<and> p < bs ! (k + 1)"
    if k: "k < length bs - 1" for k
  proof -
    have "bs ! (k + 1) \<le> length sq"
    proof (cases "k + 1 = length bs - 1")
      case True
      with cnt(4) show ?thesis by simp
    next
      case False
      with k have "k + 1 < length bs - 1" "length bs - 1 < length bs" by simp_all
      from sorted_wrt_nth_less [OF srt this] cnt(4) show ?thesis by simp
    qed
    then have "q < length sq" if "q < bs ! (k + 1)" for q using that by simp
    then show ?thesis
      using p d by (auto simp: component_cells_def nth_eq_iff_index_eq)
  qed
  from boundaries_interval [OF ok p(1)] obtain k where
    k: "k < length bs - 1 \<and> bs ! k \<le> p \<and> p < bs ! (k + 1)"
    and u: "\<And>j. j < length bs - 1 \<and> bs ! j \<le> p \<and> p < bs ! (j + 1) \<Longrightarrow> j = k"
    by blast
  show ?thesis
  proof (rule ex1I [of _ k])
    show "k < length bs - 1 \<and> c \<in> set (component_cells sq bs k)"
      using k mem [of k] by simp
    show "j = k" if "j < length bs - 1 \<and> c \<in> set (component_cells sq bs j)" for j
      using that mem [of j] u [of j] by simp
  qed
qed

subsection \<open>The upwind graph is a graph on the cells\<close>

lemma upwind_cells_bound:
  assumes "\<forall>x \<in> set work. x < nc"
  shows "\<forall>x \<in> set (upwind_cells nc cellfaces faceptr face2cell flux work). x < nc"
  unfolding upwind_cells_def
proof (rule fold_keeps [where I = "\<lambda>w. \<forall>x \<in> set w. x < nc"])
  show "\<forall>x \<in> set work. x < nc" by (rule assms)
  fix i w assume i: "i \<in> set [0 ..< nc]" and w: "\<forall>x \<in> set w. x < nc"
  show "\<forall>x \<in> set (fold (store_upwind cellfaces face2cell flux i)
                      [faceptr ! i ..< faceptr ! (i + 1)] w). x < nc"
  proof (rule fold_keeps [where I = "\<lambda>w. \<forall>x \<in> set w. x < nc"])
    show "\<forall>x \<in> set w. x < nc" by (rule w)
    fix j w' assume w': "\<forall>x \<in> set w'. x < nc"
    have "set (w'[cellfaces ! j := i]) \<subseteq> insert i (set w')"
      by (rule set_update_subset_insert)
    with w' i show "\<forall>x \<in> set (store_upwind cellfaces face2cell flux i j w'). x < nc"
      by (auto simp: store_upwind_def Let_def)
  qed
qed

lemma make_upwind_graph_ok:
  assumes ok: "topology_ok nc nf cellfaces faceptr face2cell"
    and ia: "nc < length ia" and ja: "nf \<le> length ja" and wk: "nf \<le> length work"
    and wb: "\<forall>x \<in> set work. x < nc"
    and mk: "make_upwind_graph nc cellfaces faceptr face2cell flux ia ja work = (ia', ja', w)"
  shows "graph_ok nc ia' ja'"
  unfolding graph_ok_def
proof (intro ballI)
  fix v x assume v: "v \<in> set [0 ..< nc]" and x: "x \<in> set (csr_row ia' ja' v)"
  let ?work = "upwind_cells nc cellfaces faceptr face2cell flux work"
  have cap: "length (concat (map (row_entries cellfaces faceptr face2cell flux ?work) [0 ..< nc]))
             \<le> length ja"
    using graph_capacity [OF ok, of flux ?work] ja by simp
  from v have v': "v < nc" by simp
  have row: "csr_row ia' ja' v = row_entries cellfaces faceptr face2cell flux ?work v"
    by (rule make_upwind_graph_rows [OF ia cap mk v'])
  from x obtain j where j: "j \<in> set (inflow_positions cellfaces faceptr face2cell flux v)"
    and xj: "x = ?work ! (cellfaces ! j)"
    unfolding row row_entries_def by auto
  from inflow_face(1) [OF ok v' j] wk have "cellfaces ! j < length ?work" by simp
  then have "?work ! (cellfaces ! j) \<in> set ?work" by simp
  with upwind_cells_bound [OF wb] xj show "x < nc" by blast
qed

subsection \<open>The component sequence is a partition of the cells\<close>

text \<open>
  Claim C9. For the upwind graph of a well-formed grid with \<open>N \<ge> 1\<close> cells
  (and arrays of the sizes that \<open>compute_sequence\<close> allocates), the decomposition
  returns; the number of components is at least 1 and at most \<open>N\<close>; the sequence lists
  every cell exactly once; the boundaries run from 0 to \<open>N\<close> and increase strictly;
  and every cell belongs to exactly one component.
\<close>

theorem reorder_sequence_partition:
  assumes "topology_ok nc nf cellfaces facepos face2cell" and "0 < nc"
    and "nc < length ia" and "nf \<le> length ja" and "nf \<le> length work"
    and "\<forall>x \<in> set work. x < nc"
  shows "\<exists>sequence components ncomponents ia' ja'.
           compute_reorder_sequence_graph ndebug nc cellfaces facepos face2cell flux ia ja work
           = Inr (sequence, components, ncomponents, ia', ja')
           \<and> 1 \<le> ncomponents \<and> ncomponents \<le> nc
           \<and> distinct sequence \<and> set sequence = {..< nc}
           \<and> length components = ncomponents + 1
           \<and> components ! 0 = 0 \<and> components ! ncomponents = nc
           \<and> sorted_wrt (<) components
           \<and> (\<forall>c < nc. \<exists>!k. k < ncomponents \<and> c \<in> set (component_cells sequence components k))"
proof -
  obtain ia' ja' w where
    mk: "make_upwind_graph nc cellfaces facepos face2cell flux ia ja work = (ia', ja', w)"
    by (cases "make_upwind_graph nc cellfaces facepos face2cell flux ia ja work") auto
  have "graph_ok nc ia' ja'"
    by (rule make_upwind_graph_ok [OF assms(1,3,4,5,6) mk])
  from tarjan_ok [OF this] obtain sq bs where
    t: "tarjan nc ia' ja' = Some (sq, bs, length bs - 1)"
    and d: "distinct sq" and st: "set sq = {..< nc}" and ok: "boundaries_ok bs (length sq)"
    by blast
  from d st have len: "length sq = nc"
    using distinct_card [of sq] by simp
  note cnt = boundaries_count [OF ok, unfolded len]
  from ok have ne: "bs \<noteq> []" and srt: "sorted_wrt (<) bs" by (simp_all add: boundaries_ok_def)
  from ne have lb: "length bs = (length bs - 1) + 1" by (cases bs) simp_all
  have part: "\<exists>!k. k < length bs - 1 \<and> c \<in> set (component_cells sq bs k)" if "c < nc" for c
    using component_partition [OF d ok, of c] st that by simp
  have res: "compute_reorder_sequence_graph ndebug nc cellfaces facepos face2cell flux ia ja work
             = Inr (sq, bs, length bs - 1, ia', ja')"
    using mk t cnt(1) cnt(2) [OF assms(2)]
    by (auto simp: compute_reorder_sequence_graph_def)
  show ?thesis
    using res cnt(1) cnt(2) [OF assms(2)] d st lb cnt(3,4) srt part by blast
qed

lemma chain3_reorder:
  "compute_reorder_sequence_graph False 3 [0, 0, 1, 1, 2] [0, 1, 3, 5] [0, 1, 1, 2, 2, - 1]
     [1, 1, 1] [0, 0, 0, 0] [0, 0, 0] [0, 0, 0, 0, 0, 0, 0, 0, 0]
   = Inr ([0, 1, 2], [0, 1, 2, 3], 3, [0, 0, 1, 2], [0, 1, 0])"
  unfolding compute_reorder_sequence_graph_def chain3_graph
  by (simp add: tarjan_def tarjan_seed_def tarjan_init_def csr_row_def discover_def finish_def
      upt_eval numeral_3_eq_3 eval_nat_numeral)

theorem reorder_sequence_partition_witness:
  "topology_ok 3 3 [0, 0, 1, 1, 2] [0, 1, 3, 5] [0, 1, 1, 2, 2, - 1]
   \<and> compute_reorder_sequence_graph False 3 [0, 0, 1, 1, 2] [0, 1, 3, 5] [0, 1, 1, 2, 2, - 1]
       [1, 1, 1] [0, 0, 0, 0] [0, 0, 0] [0, 0, 0, 0, 0, 0, 0, 0, 0]
     = Inr ([0, 1, 2], [0, 1, 2, 3], 3, [0, 0, 1, 2], [0, 1, 0])
   \<and> (\<exists>!k. k < 3 \<and> (1::nat) \<in> set (component_cells [0, 1, 2] [0, 1, 2, 3] k))"
proof -
  from reorder_sequence_partition [OF chain3_topology, of "[0, 0, 0, 0]" "[0, 0, 0]"
      "[0, 0, 0, 0, 0, 0, 0, 0, 0]" False "[1, 1, 1]"]
  have "\<exists>!k. k < 3 \<and> (1::nat) \<in> set (component_cells [0, 1, 2] [0, 1, 2, 3] k)"
    unfolding chain3_reorder by simp
  with chain3_topology chain3_reorder show ?thesis by simp
qed

subsection \<open>A graph whose edges point to lower vertices\<close>




subsection \<open>A graph whose edges point to the next vertex\<close>






subsection \<open>The line of cells\<close>










subsection \<open>The line of cells with the flow against the numbering\<close>



subsection \<open>The multi-cell update is one pass of single-cell updates\<close>

lemma foldM_Inr_iff:
  "foldM (\<lambda>c s. F s c) cs s = Inr s'
   \<longleftrightarrow> (\<exists>ss. length ss = length cs + 1
             \<and> (\<forall>k < length cs. F (ss ! k) (cs ! k) = Inr (ss ! (k + 1)))
             \<and> ss ! 0 = s \<and> ss ! length cs = s')"
proof (induction cs arbitrary: s)
  case Nil
  show ?case
  proof
    assume "foldM (\<lambda>c s. F s c) [] s = Inr s'"
    then have "s' = s" by simp
    then show "\<exists>ss. length ss = length [] + 1
                 \<and> (\<forall>k < length []. F (ss ! k) ([] ! k) = Inr (ss ! (k + 1)))
                 \<and> ss ! 0 = s \<and> ss ! length [] = s'"
      by (intro exI [of _ "[s]"]) simp
  next
    assume "\<exists>ss. length ss = length [] + 1
               \<and> (\<forall>k < length []. F (ss ! k) ([] ! k) = Inr (ss ! (k + 1)))
               \<and> ss ! 0 = s \<and> ss ! length [] = s'"
    then show "foldM (\<lambda>c s. F s c) [] s = Inr s'" by auto
  qed
next
  case (Cons c cs)
  show ?case
  proof
    assume run: "foldM (\<lambda>c s. F s c) (c # cs) s = Inr s'"
    then obtain s1 where s1: "F s c = Inr s1" "foldM (\<lambda>c s. F s c) cs s1 = Inr s'"
      by (auto split: sum.splits)
    from s1(2) Cons.IH [of s1] obtain ss where
      ss: "length ss = length cs + 1" "\<forall>k < length cs. F (ss ! k) (cs ! k) = Inr (ss ! (k + 1))"
        "ss ! 0 = s1" "ss ! length cs = s'"
      by blast
    have "\<forall>k < length (c # cs). F ((s # ss) ! k) ((c # cs) ! k) = Inr ((s # ss) ! (k + 1))"
    proof (intro allI impI)
      fix k assume "k < length (c # cs)"
      then show "F ((s # ss) ! k) ((c # cs) ! k) = Inr ((s # ss) ! (k + 1))"
        using s1(1) ss(2,3) by (cases k) simp_all
    qed
    with ss(1,4) show "\<exists>ss. length ss = length (c # cs) + 1
                 \<and> (\<forall>k < length (c # cs). F (ss ! k) ((c # cs) ! k) = Inr (ss ! (k + 1)))
                 \<and> ss ! 0 = s \<and> ss ! length (c # cs) = s'"
      by (intro exI [of _ "s # ss"]) simp
  next
    assume "\<exists>ss. length ss = length (c # cs) + 1
               \<and> (\<forall>k < length (c # cs). F (ss ! k) ((c # cs) ! k) = Inr (ss ! (k + 1)))
               \<and> ss ! 0 = s \<and> ss ! length (c # cs) = s'"
    then obtain ss where
      ss: "length ss = length (c # cs) + 1"
        "\<forall>k < length (c # cs). F (ss ! k) ((c # cs) ! k) = Inr (ss ! (k + 1))"
        "ss ! 0 = s" "ss ! length (c # cs) = s'"
      by blast
    from ss(1) obtain s0 ss1 where c1: "ss = s0 # ss1" by (cases ss) simp_all
    from ss(3) have s0: "s0 = s" by (simp add: c1)
    from ss(2) have first: "F s c = Inr (ss1 ! 0)"
      unfolding c1 s0 by (auto dest: spec [of _ 0])
    have rest: "\<forall>k < length cs. F (ss1 ! k) (cs ! k) = Inr (ss1 ! (k + 1))"
    proof (intro allI impI)
      fix k assume "k < length cs"
      then have "Suc k < length (c # cs)" by simp
      with ss(2) have "F (ss ! Suc k) ((c # cs) ! Suc k) = Inr (ss ! (Suc k + 1))" by blast
      then show "F (ss1 ! k) (cs ! k) = Inr (ss1 ! (k + 1))" by (simp add: c1)
    qed
    have "length ss1 = length cs + 1" "ss1 ! length cs = s'"
      using ss(1,4) by (simp_all add: c1)
    with rest have "foldM (\<lambda>c s. F s c) cs (ss1 ! 0) = Inr s'"
      using Cons.IH [of "ss1 ! 0"] by blast
    with first show "foldM (\<lambda>c s. F s c) (c # cs) s = Inr s'" by simp
  qed
qed

lemma foldM_Inl_iff:
  "foldM (\<lambda>c s. F s c) cs s = Inl e
   \<longleftrightarrow> (\<exists>k < length cs. \<exists>ss. length ss = k + 1
             \<and> (\<forall>i < k. F (ss ! i) (cs ! i) = Inr (ss ! (i + 1)))
             \<and> ss ! 0 = s \<and> F (ss ! k) (cs ! k) = Inl e)"
proof (induction cs arbitrary: s)
  case Nil
  show ?case by simp
next
  case (Cons c cs)
  show ?case
  proof
    assume run: "foldM (\<lambda>c s. F s c) (c # cs) s = Inl e"
    show "\<exists>k < length (c # cs). \<exists>ss. length ss = k + 1
             \<and> (\<forall>i < k. F (ss ! i) ((c # cs) ! i) = Inr (ss ! (i + 1)))
             \<and> ss ! 0 = s \<and> F (ss ! k) ((c # cs) ! k) = Inl e"
    proof (cases "F s c")
      case (Inl e')
      with run have "F s c = Inl e" by simp
      then show ?thesis
        by (intro exI [of _ 0] conjI exI [of _ "[s]"]) simp_all
    next
      case (Inr s1)
      with run have "foldM (\<lambda>c s. F s c) cs s1 = Inl e" by simp
      with Cons.IH [of s1] obtain k ss where
        k: "k < length cs" and ss: "length ss = k + 1"
          "\<forall>i < k. F (ss ! i) (cs ! i) = Inr (ss ! (i + 1))" "ss ! 0 = s1"
          "F (ss ! k) (cs ! k) = Inl e"
        by blast
      have "\<forall>i < Suc k. F ((s # ss) ! i) ((c # cs) ! i) = Inr ((s # ss) ! (i + 1))"
      proof (intro allI impI)
        fix i assume "i < Suc k"
        then show "F ((s # ss) ! i) ((c # cs) ! i) = Inr ((s # ss) ! (i + 1))"
          using Inr ss(2,3) by (cases i) simp_all
      qed
      with k ss(1,4) show ?thesis
        by (intro exI [of _ "Suc k"] conjI exI [of _ "s # ss"]) simp_all
    qed
  next
    assume "\<exists>k < length (c # cs). \<exists>ss. length ss = k + 1
             \<and> (\<forall>i < k. F (ss ! i) ((c # cs) ! i) = Inr (ss ! (i + 1)))
             \<and> ss ! 0 = s \<and> F (ss ! k) ((c # cs) ! k) = Inl e"
    then obtain k ss where
      k: "k < length (c # cs)" and ss: "length ss = k + 1"
        "\<forall>i < k. F (ss ! i) ((c # cs) ! i) = Inr (ss ! (i + 1))" "ss ! 0 = s"
        "F (ss ! k) ((c # cs) ! k) = Inl e"
      by blast
    show "foldM (\<lambda>c s. F s c) (c # cs) s = Inl e"
    proof (cases k)
      case 0
      with ss(3,4) show ?thesis by simp
    next
      case (Suc j)
      from ss(1) obtain s0 ss1 where c1: "ss = s0 # ss1" by (cases ss) simp_all
      from ss(3) have s0: "s0 = s" by (simp add: c1)
      from ss(2) Suc have first: "F s c = Inr (ss1 ! 0)"
        unfolding c1 s0 by (auto dest: spec [of _ 0])
      have rest: "\<forall>i < j. F (ss1 ! i) (cs ! i) = Inr (ss1 ! (i + 1))"
      proof (intro allI impI)
        fix i assume "i < j"
        then have "Suc i < k" using Suc by simp
        with ss(2) have "F (ss ! Suc i) ((c # cs) ! Suc i) = Inr (ss ! (Suc i + 1))" by blast
        then show "F (ss1 ! i) (cs ! i) = Inr (ss1 ! (i + 1))" by (simp add: c1)
      qed
      have "j < length cs" "length ss1 = j + 1" "F (ss1 ! j) (cs ! j) = Inl e"
        using k ss(1,4) Suc by (simp_all add: c1)
      with rest have "foldM (\<lambda>c s. F s c) cs (ss1 ! 0) = Inl e"
        using Cons.IH [of "ss1 ! 0"] by blast
      with first show ?thesis by simp
    qed
  qed
qed

lemma solveMultiCell_take:
  "num_cells \<le> length cells \<Longrightarrow>
   solveMultiCell ndebug s num_cells cells
   = foldM (\<lambda>c s'. solveSingleCell ndebug s' c) (take num_cells cells) s"
  unfolding solveMultiCell_def
  by (simp add: take_as_map_nth foldM_map [symmetric])
lemma upwind_term_of_from: "upwind_term_of s c = upwind_term_from s (\<lambda>j. tof s ! j) c"
  by (simp add: upwind_term_of_def upwind_term_from_def)

lemma faces_ignore_tof:
  "cell_flux (s\<lparr>tof := t\<rparr>) = cell_flux s" "other_cell (s\<lparr>tof := t\<rparr>) = other_cell s"
  by (intro ext, simp add: cell_flux_def other_cell_def)+

lemma terms_ignore_tof:
  "upwind_term_from (s\<lparr>tof := t\<rparr>) v c = upwind_term_from s v c"
  "downwind_flux_of (s\<lparr>tof := t\<rparr>) c = downwind_flux_of s c"
  unfolding upwind_term_from_def downwind_flux_of_def faces_ignore_tof by simp_all

lemma updates_take:
  "k \<le> length cs \<Longrightarrow>
   updates_in_order ndebug (take k cs) ss
   \<longleftrightarrow> length ss = k + 1
       \<and> (\<forall>i < k. solveSingleCell ndebug (ss ! i) (cs ! i) = Inr (ss ! (i + 1)))"
  by (simp add: updates_in_order_def min_def)

lemma pass_plain:
  assumes plain: "\<not> use_multidim_upwind s"
  shows "distinct cs \<Longrightarrow> \<forall>c \<in> set cs. c < length (tof s) \<Longrightarrow>
         \<exists>t. foldM (\<lambda>c s'. solveSingleCell ndebug s' c) cs s = Inr (s\<lparr>tof := t\<rparr>)
            \<and> length t = length (tof s)
            \<and> (\<forall>j. j \<notin> set cs \<longrightarrow> t ! j = tof s ! j)
            \<and> (\<forall>k < length cs.
                  t ! (cs ! k)
                  = (porevolume s ! (cs ! k)
                     - upwind_term_from s (stored_at (tof s) t (take k cs)) (cs ! k))
                    / downwind_flux_of s (cs ! k))"
proof (induction cs rule: rev_induct)
  case Nil
  have "s\<lparr>tof := tof s\<rparr> = s" by simp
  then show ?case by (intro exI [of _ "tof s"]) simp
next
  case (snoc c cs)
  from snoc.prems have d: "distinct cs" "c \<notin> set cs" and r: "\<forall>c \<in> set cs. c < length (tof s)"
    and c: "c < length (tof s)"
    by simp_all
  from snoc.IH [OF d(1) r] obtain t where
    t: "foldM (\<lambda>c s'. solveSingleCell ndebug s' c) cs s = Inr (s\<lparr>tof := t\<rparr>)"
      "length t = length (tof s)" "\<forall>j. j \<notin> set cs \<longrightarrow> t ! j = tof s ! j"
      "\<forall>k < length cs.
         t ! (cs ! k)
         = (porevolume s ! (cs ! k)
            - upwind_term_from s (stored_at (tof s) t (take k cs)) (cs ! k))
           / downwind_flux_of s (cs ! k)"
    by blast
  let ?s = "s\<lparr>tof := t\<rparr>"
  define v where "v = (porevolume s ! c - upwind_term_from s (\<lambda>j. t ! j) c)
                      / downwind_flux_of s c"
  let ?t = "t[c := v]"
  have "solveSingleCell ndebug ?s c = Inr (?s\<lparr>tof := ?t\<rparr>)"
    using plain by (simp add: solveSingleCell_plain upwind_term_of_from terms_ignore_tof v_def)
  then have run: "foldM (\<lambda>c s'. solveSingleCell ndebug s' c) (cs @ [c]) s = Inr (s\<lparr>tof := ?t\<rparr>)"
    using t(1) by (simp add: foldM_append)
  have len: "length ?t = length (tof s)" using t(2) by simp
  have frame: "\<forall>j. j \<notin> set (cs @ [c]) \<longrightarrow> ?t ! j = tof s ! j"
    using t(3) by simp
  have same: "stored_at (tof s) ?t (take k (cs @ [c])) = stored_at (tof s) t (take k cs)"
    if "k \<le> length cs" for k
  proof (rule ext)
    fix j
    have "j \<in> set (take k cs) \<Longrightarrow> j \<noteq> c" using d(2) by (auto dest: in_set_takeD)
    with that show "stored_at (tof s) ?t (take k (cs @ [c])) j = stored_at (tof s) t (take k cs) j"
      by (auto simp: stored_at_def)
  qed
  have seen: "stored_at (tof s) t cs = (\<lambda>j. t ! j)"
    using t(3) by (auto simp: stored_at_def)
  have vals: "?t ! ((cs @ [c]) ! k)
        = (porevolume s ! ((cs @ [c]) ! k)
           - upwind_term_from s (stored_at (tof s) ?t (take k (cs @ [c]))) ((cs @ [c]) ! k))
          / downwind_flux_of s ((cs @ [c]) ! k)"
    if "k < length (cs @ [c])" for k
  proof (cases "k < length cs")
    case True
    then have "cs ! k \<in> set cs" by simp
    with d(2) have ne: "cs ! k \<noteq> c" by auto
    have "?t ! (cs ! k) = t ! (cs ! k)" using ne by simp
    moreover from t(4) True have "t ! (cs ! k)
         = (porevolume s ! (cs ! k)
            - upwind_term_from s (stored_at (tof s) t (take k cs)) (cs ! k))
           / downwind_flux_of s (cs ! k)"
      by blast
    moreover have "(cs @ [c]) ! k = cs ! k" using True by (simp add: nth_append)
    moreover have "stored_at (tof s) ?t (take k (cs @ [c])) = stored_at (tof s) t (take k cs)"
      using True by (intro same) simp
    ultimately show ?thesis by (simp only:)
  next
    case False
    with that have k: "k = length cs" by simp
    have "?t ! c = v" using c t(2) by simp
    then show ?thesis
      using same [of "length cs"] by (simp add: k v_def seen)
  qed
  from run len frame vals show ?case by blast
qed

text \<open>
  Claim C5. Let \<open>cs\<close> be the cells that \<open>solveMultiCell\<close> is given: the first \<open>num_cells\<close>
  entries of \<open>cells\<close>.
  \<^item> The call returns object \<open>s'\<close> exactly when there are solver objects
    \<open>ss ! 0 = s, \<dots>, ss ! num_cells = s'\<close> such that the single-cell update of cell
    \<open>cs ! k\<close> takes \<open>ss ! k\<close> to \<open>ss ! (k + 1)\<close>: one update for each listed cell, in the
    listed order, each starting from what the previous one left, and no further update.
  \<^item> The call fails exactly when the updates of the cells before some cell \<open>cs ! k\<close>
    return and the update of \<open>cs ! k\<close> fails; it fails in the same way.
  \<^item> Without multidimensional upwinding, for distinct cells that the output vector
    holds (and nonzero divisors), the call returns and changes only the time of flight
    of the listed cells; the value of cell \<open>cs ! k\<close> is its single-cell balance
    evaluated with the new values of the cells listed before it and the values stored
    at the start of the call for every other neighbour, also for the cells of the
    component that are listed after it. These values are not revisited.
  \<^item> For a component of more than one cell, the component loop calls \<open>solveMultiCell\<close>
    with the number of cells of the component and the sequence from the component's
    boundary on, so that \<open>cs\<close> is the cells of the component in the order of the
    sequence.
\<close>

theorem solveMultiCell_once_in_order:
  fixes cells :: "nat list" and num_cells :: nat
  defines "cs \<equiv> take num_cells cells"
  assumes "num_cells \<le> length cells"
  shows "(\<forall>s'. solveMultiCell ndebug s num_cells cells = Inr s'
            \<longleftrightarrow> (\<exists>ss. updates_in_order ndebug cs ss \<and> ss ! 0 = s \<and> ss ! num_cells = s'))
       \<and> (\<forall>e. solveMultiCell ndebug s num_cells cells = Inl e
            \<longleftrightarrow> (\<exists>k < num_cells. \<exists>ss. updates_in_order ndebug (take k cs) ss \<and> ss ! 0 = s
                      \<and> solveSingleCell ndebug (ss ! k) (cs ! k) = Inl e))
       \<and> (\<not> use_multidim_upwind s \<and> distinct cs
           \<and> (\<forall>c \<in> set cs. c < length (tof s) \<and> downwind_flux_of s c \<noteq> 0) \<longrightarrow>
          (\<exists>t. solveMultiCell ndebug s num_cells cells = Inr (s\<lparr>tof := t\<rparr>)
             \<and> length t = length (tof s)
             \<and> (\<forall>j. j \<notin> set cs \<longrightarrow> t ! j = tof s ! j)
             \<and> (\<forall>k < num_cells.
                   t ! (cs ! k)
                   = (porevolume s ! (cs ! k)
                      - upwind_term_from s (stored_at (tof s) t (take k cs)) (cs ! k))
                     / downwind_flux_of s (cs ! k))))
       \<and> (\<forall>sequence components c.
            cells = drop (components ! c) sequence
            \<and> num_cells = components ! (c + 1) - components ! c \<and> 1 < num_cells \<longrightarrow>
            solve_component ndebug sequence components c s
            = solveMultiCell ndebug s num_cells cells
            \<and> cs = component_cells sequence components c)"
proof (intro conjI allI impI)
  note run = solveMultiCell_take [OF assms(2), of ndebug s, folded cs_def]
  have len: "length cs = num_cells" using assms(2) by (simp add: cs_def)
  fix s'
  show "solveMultiCell ndebug s num_cells cells = Inr s'
        \<longleftrightarrow> (\<exists>ss. updates_in_order ndebug cs ss \<and> ss ! 0 = s \<and> ss ! num_cells = s')"
    unfolding run foldM_Inr_iff [of "solveSingleCell ndebug"] updates_in_order_def len
    by blast
next
  note run = solveMultiCell_take [OF assms(2), of ndebug s, folded cs_def]
  have len: "length cs = num_cells" using assms(2) by (simp add: cs_def)
  fix e
  have tk: "updates_in_order ndebug (take k cs) ss
            \<longleftrightarrow> length ss = k + 1
                \<and> (\<forall>i < k. solveSingleCell ndebug (ss ! i) (cs ! i) = Inr (ss ! (i + 1)))"
    if "k < num_cells" for k ss
    using that len by (intro updates_take) simp
  show "solveMultiCell ndebug s num_cells cells = Inl e
        \<longleftrightarrow> (\<exists>k < num_cells. \<exists>ss. updates_in_order ndebug (take k cs) ss \<and> ss ! 0 = s
                  \<and> solveSingleCell ndebug (ss ! k) (cs ! k) = Inl e)"
    unfolding run foldM_Inl_iff [of "solveSingleCell ndebug"] len
  proof
    assume "\<exists>k < num_cells. \<exists>ss. length ss = k + 1
              \<and> (\<forall>i < k. solveSingleCell ndebug (ss ! i) (cs ! i) = Inr (ss ! (i + 1)))
              \<and> ss ! 0 = s \<and> solveSingleCell ndebug (ss ! k) (cs ! k) = Inl e"
    then obtain k ss where "k < num_cells" "length ss = k + 1
              \<and> (\<forall>i < k. solveSingleCell ndebug (ss ! i) (cs ! i) = Inr (ss ! (i + 1)))"
              "ss ! 0 = s" "solveSingleCell ndebug (ss ! k) (cs ! k) = Inl e"
      by blast
    with tk [of k ss] show "\<exists>k < num_cells. \<exists>ss. updates_in_order ndebug (take k cs) ss
              \<and> ss ! 0 = s \<and> solveSingleCell ndebug (ss ! k) (cs ! k) = Inl e"
      by blast
  next
    assume "\<exists>k < num_cells. \<exists>ss. updates_in_order ndebug (take k cs) ss
              \<and> ss ! 0 = s \<and> solveSingleCell ndebug (ss ! k) (cs ! k) = Inl e"
    then obtain k ss where "k < num_cells" "updates_in_order ndebug (take k cs) ss"
              "ss ! 0 = s" "solveSingleCell ndebug (ss ! k) (cs ! k) = Inl e"
      by blast
    with tk [of k ss] show "\<exists>k < num_cells. \<exists>ss. length ss = k + 1
              \<and> (\<forall>i < k. solveSingleCell ndebug (ss ! i) (cs ! i) = Inr (ss ! (i + 1)))
              \<and> ss ! 0 = s \<and> solveSingleCell ndebug (ss ! k) (cs ! k) = Inl e"
      by blast
  qed
next
  note run = solveMultiCell_take [OF assms(2), of ndebug s, folded cs_def]
  have len: "length cs = num_cells" using assms(2) by (simp add: cs_def)
  assume a: "\<not> use_multidim_upwind s \<and> distinct cs
             \<and> (\<forall>c \<in> set cs. c < length (tof s) \<and> downwind_flux_of s c \<noteq> 0)"
  then have "\<not> use_multidim_upwind s" "distinct cs" "\<forall>c \<in> set cs. c < length (tof s)"
    by auto
  from pass_plain [OF this, of ndebug]
  show "\<exists>t. solveMultiCell ndebug s num_cells cells = Inr (s\<lparr>tof := t\<rparr>)
          \<and> length t = length (tof s)
          \<and> (\<forall>j. j \<notin> set cs \<longrightarrow> t ! j = tof s ! j)
          \<and> (\<forall>k < num_cells.
                t ! (cs ! k)
                = (porevolume s ! (cs ! k)
                   - upwind_term_from s (stored_at (tof s) t (take k cs)) (cs ! k))
                  / downwind_flux_of s (cs ! k))"
    unfolding run len .
next
  fix sequence components c
  assume a: "cells = drop (components ! c) sequence
             \<and> num_cells = components ! (c + 1) - components ! c \<and> 1 < num_cells"
  then show "solve_component ndebug sequence components c s
             = solveMultiCell ndebug s num_cells cells"
    by (simp add: solve_component_def)
next
  fix sequence components c
  assume a: "cells = drop (components ! c) sequence
             \<and> num_cells = components ! (c + 1) - components ! c \<and> 1 < num_cells"
  then have cells: "cells = drop (components ! c) sequence"
    and n: "num_cells = components ! (c + 1) - components ! c" and big: "1 < num_cells"
    by blast+
  from assms(2) have "num_cells \<le> length sequence - components ! c"
    unfolding cells by simp
  with big have le: "components ! c + num_cells \<le> length sequence" by linarith
  from n big have up: "components ! (c + 1) = components ! c + num_cells" by linarith
  have "take num_cells (drop (components ! c) sequence)
        = map (\<lambda>p. sequence ! p) [components ! c ..< components ! c + num_cells]"
    using le by (simp add: list_eq_iff_nth_eq)
  then show "cs = component_cells sequence components c"
    unfolding cs_def component_cells_def up cells .
qed
lemma ring2_fields:
  "number_of_cells ring2 = 2" "number_of_faces ring2 = 2"
  "face_cells ring2 = [0, 1, 0, 1]" "cell_faces ring2 = [0, 1, 0, 1]"
  "cell_facepos ring2 = [0, 2, 4]"
  by (simp_all add: ring2_def)

lemma ring2_sequence: "compute_sequence ndebug ring2 [2, - 1] = Inr ([1, 0], [0, 2], 1)"
  by (simp add: compute_sequence_def compute_reorder_sequence_graph_def make_upwind_graph_def
      upwind_cells_def store_upwind_def theflux_def fill_row_def fill_entry_def boundaryface_def
      ring2_fields tarjan_def tarjan_seed_def tarjan_init_def csr_row_def discover_def finish_def
      upt_eval eval_nat_numeral)

lemma ring2_faces: "faces_of_cell ring2 0 = [0, 1]" "faces_of_cell ring2 (Suc 0) = [0, 1]"
  by (simp_all add: faces_of_cell_def ring2_fields upt_eval eval_nat_numeral)

lemma ring2_terms:
  assumes "grid s = ring2" "darcyflux s = [2, - 1]" "source s = [1, - 1]"
  shows "upwind_term_from s v 0 = - v 1" "upwind_term_from s v (Suc 0) = - 2 * v 0"
    "downwind_flux_of s 0 = 2" "downwind_flux_of s (Suc 0) = 2"
  by (simp_all add: upwind_term_from_def downwind_flux_of_def assms ring2_faces cell_flux_def
      other_cell_def ring2_fields)

lemma ring2_pass:
  assumes "grid s = ring2" "darcyflux s = [2, - 1]" "source s = [1, - 1]"
    "porevolume s = [1, 1]" "\<not> use_multidim_upwind s" "tof s = [a, b]"
  shows "solveMultiCell ndebug s 2 [1, 0]
         = Inr (s\<lparr>tof := [(1 + (1 + 2 * a) / 2) / 2, (1 + 2 * a) / 2]\<rparr>)"
proof -
  have one: "solveSingleCell ndebug s' (Suc 0) = Inr (s'\<lparr>tof := [x, (1 + 2 * x) / 2]\<rparr>)"
    if "grid s' = ring2" "darcyflux s' = [2, - 1]" "source s' = [1, - 1]"
      "porevolume s' = [1, 1]" "\<not> use_multidim_upwind s'" "tof s' = [x, y]" for s' x y
    using that by (simp add: solveSingleCell_plain upwind_term_of_from ring2_terms)
  have zero: "solveSingleCell ndebug s' 0 = Inr (s'\<lparr>tof := [(1 + y) / 2, y]\<rparr>)"
    if "grid s' = ring2" "darcyflux s' = [2, - 1]" "source s' = [1, - 1]"
      "porevolume s' = [1, 1]" "\<not> use_multidim_upwind s'" "tof s' = [x, y]" for s' x y
    using that by (simp add: solveSingleCell_plain upwind_term_of_from ring2_terms)
  show ?thesis
    using assms
    by (simp add: solveMultiCell_take one [of s a b]
        zero [of "s\<lparr>tof := [a, (1 + 2 * a) / 2]\<rparr>" a "(1 + 2 * a) / 2"])
qed

lemma ring2_pass_other_order:
  assumes "grid s = ring2" "darcyflux s = [2, - 1]" "source s = [1, - 1]"
    "porevolume s = [1, 1]" "\<not> use_multidim_upwind s" "tof s = [a, b]"
  shows "solveMultiCell ndebug s 2 [0, 1]
         = Inr (s\<lparr>tof := [(1 + b) / 2, (1 + 2 * ((1 + b) / 2)) / 2]\<rparr>)"
proof -
  have one: "solveSingleCell ndebug s' (Suc 0) = Inr (s'\<lparr>tof := [x, (1 + 2 * x) / 2]\<rparr>)"
    if "grid s' = ring2" "darcyflux s' = [2, - 1]" "source s' = [1, - 1]"
      "porevolume s' = [1, 1]" "\<not> use_multidim_upwind s'" "tof s' = [x, y]" for s' x y
    using that by (simp add: solveSingleCell_plain upwind_term_of_from ring2_terms)
  have zero: "solveSingleCell ndebug s' 0 = Inr (s'\<lparr>tof := [(1 + y) / 2, y]\<rparr>)"
    if "grid s' = ring2" "darcyflux s' = [2, - 1]" "source s' = [1, - 1]"
      "porevolume s' = [1, 1]" "\<not> use_multidim_upwind s'" "tof s' = [x, y]" for s' x y
    using that by (simp add: solveSingleCell_plain upwind_term_of_from ring2_terms)
  show ?thesis
    using assms
    by (simp add: solveMultiCell_take zero [of s a b]
        one [of "s\<lparr>tof := [(1 + b) / 2, b]\<rparr>" "(1 + b) / 2" b])
qed

lemma ring2_state_fields:
  "grid ring2_state = ring2" "darcyflux ring2_state = [2, - 1]" "source ring2_state = [1, - 1]"
  "porevolume ring2_state = [1, 1]" "\<not> use_multidim_upwind ring2_state"
  "tof ring2_state = [0, 0]"
  by (simp_all add: ring2_state_def)

theorem solveMultiCell_once_in_order_witness:
  "(2::nat) \<le> length [1, 0 :: nat]
   \<and> \<not> use_multidim_upwind ring2_state \<and> distinct [1, 0 :: nat]
   \<and> list_all (\<lambda>c. c < length (tof ring2_state) \<and> downwind_flux_of ring2_state c \<noteq> 0) [1, 0]
   \<and> compute_sequence False ring2 [2, - 1] = Inr ([1, 0], [0, 2], 1)
   \<and> component_cells [1, 0] [0, 2] 0 = [1, 0]
   \<and> solve_component False [1, 0] [0, 2] 0 ring2_state
     = solveMultiCell False ring2_state 2 [1, 0]
   \<and> solveMultiCell False ring2_state 2 [1, 0] = Inr (ring2_state\<lparr>tof := [3 / 4, 1 / 2]\<rparr>)
   \<and> solveMultiCell False (ring2_state\<lparr>tof := [3 / 4, 1 / 2]\<rparr>) 2 [1, 0]
     = Inr (ring2_state\<lparr>tof := [9 / 8, 5 / 4]\<rparr>)
   \<and> solveMultiCell False ring2_state 2 [0, 1] = Inr (ring2_state\<lparr>tof := [1 / 2, 1]\<rparr>)
   \<and> tof_output (solveTof False (fresh_solver ring2 False) [2, - 1] [1, 1] [1, - 1] [])
     = Inr [3 / 4, 1 / 2]"
proof -
  have le: "2 \<le> length [1, 0 :: nat]" by simp
  have tk: "take 2 [1, 0 :: nat] = [1, 0]" by simp
  note inst = solveMultiCell_once_in_order [OF le, of False ring2_state, unfolded tk]
  have hyp: "\<not> use_multidim_upwind ring2_state" "distinct [1, 0 :: nat]"
    "\<forall>c \<in> set [1, 0]. c < length (tof ring2_state) \<and> downwind_flux_of ring2_state c \<noteq> 0"
    by (simp_all add: ring2_state_fields ring2_terms)
  note plain = inst [THEN conjunct2, THEN conjunct2, THEN conjunct1, rule_format,
      OF conjI [OF hyp(1) conjI [OF hyp(2) hyp(3)]]]
  then obtain t where
    t: "solveMultiCell False ring2_state 2 [1, 0] = Inr (ring2_state\<lparr>tof := t\<rparr>)"
      "length t = length (tof ring2_state)"
      "\<forall>k < 2. t ! ([1, 0] ! k)
         = (porevolume ring2_state ! ([1, 0] ! k)
            - upwind_term_from ring2_state (stored_at (tof ring2_state) t (take k [1, 0]))
                ([1, 0] ! k))
           / downwind_flux_of ring2_state ([1, 0] ! k)"
    by blast
  from t(3) have "t ! 1 = 1 / 2"
    by (auto dest!: spec [of _ 0] simp: ring2_state_fields ring2_terms stored_at_def)
  moreover from t(3) have "t ! 0 = (1 + t ! 1) / 2"
    by (auto dest!: spec [of _ 1] simp: ring2_state_fields ring2_terms stored_at_def)
  moreover from t(2) have "length t = 2" by (simp add: ring2_state_fields)
  ultimately have "t = [3 / 4, 1 / 2]"
    by (simp add: list_eq_iff_nth_eq less_Suc_eq eval_nat_numeral)
  with t(1) have first: "solveMultiCell False ring2_state 2 [1, 0]
                         = Inr (ring2_state\<lparr>tof := [3 / 4, 1 / 2]\<rparr>)"
    by simp
  have "[1, 0] = drop ([0, 2] ! 0) [1, 0 :: nat] \<and> 2 = [0, 2] ! (0 + 1) - [0, 2 :: nat] ! 0
        \<and> 1 < (2 :: nat)"
    by simp
  with inst have tie: "solve_component False [1, 0] [0, 2] 0 ring2_state
                       = solveMultiCell False ring2_state 2 [1, 0]"
    by blast
  have second: "solveMultiCell False (ring2_state\<lparr>tof := [3 / 4, 1 / 2]\<rparr>) 2 [1, 0]
                = Inr (ring2_state\<lparr>tof := [9 / 8, 5 / 4]\<rparr>)"
    using ring2_pass [of "ring2_state\<lparr>tof := [3 / 4, 1 / 2]\<rparr>" "3 / 4" "1 / 2" False]
    by (simp add: ring2_state_fields)
  have other: "solveMultiCell False ring2_state 2 [0, 1] = Inr (ring2_state\<lparr>tof := [1 / 2, 1]\<rparr>)"
    using ring2_pass_other_order [of ring2_state 0 0 False]
    by (simp add: ring2_state_fields)
  have chk: "check_sources False s [1, - 1] = None" if "grid s = ring2" for s
    using that by (simp add: check_sources_def max_element_def ring2_fields)
  have start: "start_of_solve (fresh_solver ring2 False) [2, - 1] [1, 1] [1, - 1] = ring2_state"
    by (simp add: start_of_solve_def fresh_solver_def ring2_state_def ring2_fields
        eval_nat_numeral)
  have "solveTof False (fresh_solver ring2 False) [2, - 1] [1, 1] [1, - 1] []
        = reorderAndTransport False ring2_state ring2 [2, - 1]"
    by (simp add: solveTof_after_check chk fresh_solver_def start [unfolded fresh_solver_def])
  also have "\<dots> = Inr (ring2_state\<lparr>tof := [3 / 4, 1 / 2]\<rparr>)"
    using tie first by (simp add: reorderAndTransport_def ring2_sequence)
  finally have out: "tof_output (solveTof False (fresh_solver ring2 False) [2, - 1] [1, 1]
                       [1, - 1] []) = Inr [3 / 4, 1 / 2]"
    by (simp add: tof_output_def)
  have "component_cells [1, 0] [0, 2] 0 = [1, 0]"
    by (simp add: component_cells_def upt_eval eval_nat_numeral)
  with hyp first tie second other out ring2_sequence show ?thesis
    by (simp add: list_all_iff)
qed

section \<open>Properties of the code with rounding\<close>

subsection \<open>Rounding to \<^verbatim>\<open>double\<close>\<close>





lemma binary64_zero [simp]: "binary64 0 = 0"
  by (simp add: binary64_def)









subsection \<open>Exact arithmetic is rounding by the identity\<close>

lemma exact_rounding:
  "multidimUpwindTof_fl (\<lambda>x. x) = multidimUpwindTof"
  "face_step_fl (\<lambda>x. x) = face_step"
  "solveSingleCell_fl (\<lambda>x. x) = solveSingleCell"
  "solveMultiCell_fl (\<lambda>x. x) = solveMultiCell"
  "solve_component_fl (\<lambda>x. x) = solve_component"
  "reorderAndTransport_fl (\<lambda>x. x) = reorderAndTransport"
  "check_sources_fl (\<lambda>x. x) = check_sources"
  "solveTof_fl (\<lambda>x. x) = solveTof"
proof -
  have om: "omega_fl (\<lambda>x. x) = omega"
    by (intro ext) (simp add: omega_fl_def omega_def omega_star_fl_def omega_star_def)
  show m: "multidimUpwindTof_fl (\<lambda>x. x) = multidimUpwindTof"
    by (intro ext) (simp only: multidimUpwindTof_fl_def multidimUpwindTof_def om)
  show f: "face_step_fl (\<lambda>x. x) = face_step"
    by (intro ext) (simp only: face_step_fl_def face_step_def m)
  show s: "solveSingleCell_fl (\<lambda>x. x) = solveSingleCell"
    by (intro ext) (simp only: solveSingleCell_fl_def solveSingleCell_def f)
  show mc: "solveMultiCell_fl (\<lambda>x. x) = solveMultiCell"
    by (intro ext) (simp only: solveMultiCell_fl_def solveMultiCell_def s)
  show c: "solve_component_fl (\<lambda>x. x) = solve_component"
    by (intro ext) (simp only: solve_component_fl_def solve_component_def s mc)
  show r: "reorderAndTransport_fl (\<lambda>x. x) = reorderAndTransport"
    by (intro ext) (simp only: reorderAndTransport_fl_def reorderAndTransport_def c)
  show k: "check_sources_fl (\<lambda>x. x) = check_sources"
    by (intro ext) (simp only: check_sources_fl_def check_sources_def)
  show "solveTof_fl (\<lambda>x. x) = solveTof"
    by (intro ext) (simp only: solveTof_fl_def solveTof_def r k)
qed

subsection \<open>The single-cell update without multidimensional upwinding\<close>



subsection \<open>The line of cells\<close>
















end
